theory Spec2Isabelle
  imports Main "HOL-Library.AList" "HOL-Library.Multiset"
begin

section \<open>Strings, indices and run-time panics\<close>

text \<open>
  A Go \<open>string\<close> is a sequence of octets, here a \<open>char list\<close>. Indices are Go
  \<open>int\<close>s (\<open>strings.IndexByte\<close> answers \<open>-1\<close> for "absent"), so they are modelled as
  \<open>int\<close>. Lengths never come near the 64-bit range, so no wrap-around is written out.
  Indexing and slicing outside the bounds of a string panics in Go; every such access is
  a branch of the model that yields \<open>Inl\<close> of the panic.
\<close>

datatype go_panic =
    IndexOutOfRange
  | SliceOutOfRange
  | TruncateOutOfRange
  | NilMapAssignment

definition bindE :: "go_panic + 'a \<Rightarrow> ('a \<Rightarrow> go_panic + 'b) \<Rightarrow> go_panic + 'b" where
  "bindE m f = (case m of Inl p \<Rightarrow> Inl p | Inr x \<Rightarrow> f x)"

definition byte_at :: "string \<Rightarrow> int \<Rightarrow> go_panic + char" where
  \<comment> \<open>\<open>s[i]\<close>\<close>
  "byte_at s i =
     (if 0 \<le> i \<and> i < int (length s) then Inr (s ! nat i) else Inl IndexOutOfRange)"

definition slice :: "string \<Rightarrow> int \<Rightarrow> int \<Rightarrow> go_panic + string" where
  \<comment> \<open>\<open>s[a:b]\<close>\<close>
  "slice s a b =
     (if 0 \<le> a \<and> a \<le> b \<and> b \<le> int (length s)
      then Inr (take (nat b - nat a) (drop (nat a) s))
      else Inl SliceOutOfRange)"

definition slice_from :: "string \<Rightarrow> int \<Rightarrow> go_panic + string" where
  \<comment> \<open>\<open>s[a:]\<close>\<close>
  "slice_from s a = slice s a (int (length s))"

definition slice_to :: "string \<Rightarrow> int \<Rightarrow> go_panic + string" where
  \<comment> \<open>\<open>s[:b]\<close>\<close>
  "slice_to s b = slice s 0 b"

definition IndexByte :: "string \<Rightarrow> char \<Rightarrow> int" where
  \<comment> \<open>\<open>strings.IndexByte\<close>: the first index of the octet, or \<open>-1\<close>\<close>
  "IndexByte s c =
     (if c \<in> set s then int (length (takeWhile (\<lambda>x. x \<noteq> c) s)) else - 1)"

fun Split :: "string \<Rightarrow> char \<Rightarrow> string list" where
  \<comment> \<open>\<open>strings.Split\<close> with a one-octet separator; the empty string gives one empty piece\<close>
  "Split [] sep = [[]]"
| "Split (x # xs) sep =
     (if x = sep then [] # Split xs sep
      else (case Split xs sep of [] \<Rightarrow> [[x]] | y # ys \<Rightarrow> (x # y) # ys))"

fun Join :: "string list \<Rightarrow> char \<Rightarrow> string" where
  \<comment> \<open>\<open>strings.Join\<close> with a one-octet separator\<close>
  "Join [] sep = []"
| "Join [x] sep = x"
| "Join (x # y # ys) sep = x @ sep # Join (y # ys) sep"

section \<open>tags.go: the tag codec\<close>

definition prefixTag :: char where "prefixTag = CHR 0x40"
definition prefixTagValue :: char where "prefixTagValue = CHR 0x3D"
definition tagSeparator :: char where "tagSeparator = CHR 0x3B"
definition maxTagLength :: nat where "maxTagLength = 511"

text \<open>
  \<open>Tags\<close> is a Go \<open>map[string]string\<close>. Serialization ranges over the map, and the
  order of that range is not fixed by the language, so a tag map is modelled as an
  association list: the list order is the order in which one \<open>range\<close> loop visits the
  entries, and another \<open>range\<close> over the same map may visit them in another order,
  which is another list with the same entries. Storing under a key replaces the entry of
  that key (\<open>AList.update\<close>). A nil map is \<open>None\<close>: it is read like the empty map, and a
  store into it panics.
\<close>

type_synonym Tags = "(string \<times> string) list"

definition ParseTags_step :: "Tags \<Rightarrow> string \<Rightarrow> go_panic + Tags" where
  \<comment> \<open>one round of the loop of \<open>ParseTags\<close>, on \<open>parts[i]\<close>\<close>
  "ParseTags_step t part =
     (let hasValue = IndexByte part prefixTagValue in
      if hasValue < 1 then Inr (AList.update part [] t)
      else if int (length part) < hasValue + 1 then Inr (AList.update part [] t)
      else bindE (slice_to part hasValue) (\<lambda>k.
           bindE (slice_from part (hasValue + 1)) (\<lambda>v.
           Inr (AList.update k v t))))"

fun ParseTags_loop :: "Tags \<Rightarrow> string list \<Rightarrow> go_panic + Tags" where
  "ParseTags_loop t [] = Inr t"
| "ParseTags_loop t (p # ps) = bindE (ParseTags_step t p) (\<lambda>t'. ParseTags_loop t' ps)"

definition ParseTags :: "string \<Rightarrow> go_panic + Tags" where
  "ParseTags raw = ParseTags_loop [] (Split raw tagSeparator)"

fun Tags_Bytes_loop :: "nat \<Rightarrow> nat \<Rightarrow> Tags \<Rightarrow> string \<Rightarrow> string" where
  \<comment> \<open>the \<open>range\<close> loop of \<open>Tags.Bytes\<close>: \<open>max\<close>, \<open>current\<close>, the entries left, the buffer\<close>
  "Tags_Bytes_loop mx current [] buffer = buffer"
| "Tags_Bytes_loop mx current ((tagName, tagValue) # rest) buffer =
     (if length buffer + length tagName + length tagValue + 2 > maxTagLength then buffer
      else Tags_Bytes_loop mx (current + 1) rest
             (buffer @ tagName
                @ (if length tagValue > 0 then prefixTagValue # tagValue else [])
                @ (if current \<le> mx then [tagSeparator] else [])))"

definition Tags_Bytes :: "Tags \<Rightarrow> string" where
  "Tags_Bytes t = (if length t = 0 then [] else Tags_Bytes_loop (length t) 0 t [])"

definition Tags_String :: "Tags \<Rightarrow> string" where
  "Tags_String t = Tags_Bytes t"

definition Tags_Len :: "Tags \<Rightarrow> nat" where
  "Tags_Len t = length (Tags_String t)"

definition Tags_writeTo :: "Tags \<Rightarrow> string \<Rightarrow> string" where
  \<comment> \<open>\<open>Tags.writeTo\<close> on a \<open>bytes.Buffer\<close>, whose writes never fail: the buffer after the call\<close>
  "Tags_writeTo t w = (let b = Tags_Bytes t in if length b = 0 then w else w @ b @ [CHR 0x20])"

text \<open>
  \<open>strings.NewReplacer(pairs...).Replace\<close>: replacements are made in the order they
  appear in the target string, without overlapping matches, and the old strings are
  compared in argument order. All old strings of the two tables below are non-empty.
\<close>

fun lookup_pair :: "(string \<times> string) list \<Rightarrow> string \<Rightarrow> (string \<times> string) option" where
  "lookup_pair [] s = None"
| "lookup_pair ((old, new) # ps) s =
     (if old \<noteq> [] \<and> take (length old) s = old then Some (old, new) else lookup_pair ps s)"

function Replace :: "(string \<times> string) list \<Rightarrow> string \<Rightarrow> string" where
  "Replace ps [] = []"
| "Replace ps (c # cs) =
     (case lookup_pair ps (c # cs) of
        Some (old, new) \<Rightarrow> new @ Replace ps (drop (length old) (c # cs))
      | None \<Rightarrow> c # Replace ps cs)"
  by pat_completeness auto

termination Replace
proof (relation "measure (\<lambda>(ps, s). length s)")
  fix ps :: "(string \<times> string) list" and c :: char and cs x2 old new
  assume found: "lookup_pair ps (c # cs) = Some x2" and pair: "(old, new) = x2"
  have "lookup_pair qs s = Some (old, new) \<Longrightarrow> old \<noteq> []" for qs s
    by (induction qs) (auto split: if_splits)
  with found pair have "old \<noteq> []" by metis
  then show "((ps, drop (length old) (c # cs)), (ps, c # cs)) \<in> measure (\<lambda>(ps, s). length s)"
    by (cases old) auto
qed auto

definition tagDecode :: "(string \<times> string) list" where
  "tagDecode =
     [([CHR 0x5C, CHR '':''], [CHR '';'']),
      ([CHR 0x5C, CHR ''s''], [CHR 0x20]),
      ([CHR 0x5C, CHR 0x5C], [CHR 0x5C]),
      ([CHR 0x5C, CHR ''r''], [CHR 0x0D]),
      ([CHR 0x5C, CHR ''n''], [CHR 0x0A])]"

definition tagDecoder :: "string \<Rightarrow> string" where
  "tagDecoder = Replace tagDecode"

definition tagEncode :: "(string \<times> string) list" where
  "tagEncode =
     [([CHR '';''], [CHR 0x5C, CHR '':'']),
      ([CHR 0x20], [CHR 0x5C, CHR ''s'']),
      ([CHR 0x5C], [CHR 0x5C, CHR 0x5C]),
      ([CHR 0x0D], [CHR 0x5C, CHR ''r'']),
      ([CHR 0x0A], [CHR 0x5C, CHR ''n''])]"

definition tagEncoder :: "string \<Rightarrow> string" where
  "tagEncoder = Replace tagEncode"

definition Tags_Get :: "Tags \<Rightarrow> string \<Rightarrow> string \<times> bool" where
  "Tags_Get t key = (case map_of t key of Some v \<Rightarrow> (tagDecoder v, True) | None \<Rightarrow> ([], False))"

definition validTag_byte :: "char \<Rightarrow> bool" where
  \<comment> \<open>the negation of the test in the loop of \<open>validTag\<close>; \<open>b\<close> is \<open>name[i]\<close>\<close>
  "validTag_byte c =
     (let b = (of_char c :: nat) in
      \<not> ((b < 0x41 \<or> b > 0x5A) \<and> (b < 0x61 \<or> b > 0x7A) \<and> (b < 0x2D \<or> b > 0x39) \<and> b \<noteq> 0x5F))"

definition validTag :: "string \<Rightarrow> bool" where
  "validTag name = (if length name < 1 then False else list_all validTag_byte name)"

datatype tag_error =
    InvalidTag string
  | TagsTooLong string string

definition Tags_Set :: "Tags option \<Rightarrow> string \<Rightarrow> string \<Rightarrow> go_panic + (tag_error + Tags)" where
  \<comment> \<open>\<open>Tags.Set\<close> on a map that may be nil: a panic, the error returned, or the map after
      the store. The list of an allocated map is the order of the \<open>range\<close> in \<open>t.Len()\<close>.\<close>
  "Tags_Set t key val =
     (if \<not> validTag key then Inr (Inl (InvalidTag key))
      else
        let v = tagEncoder val in
        if Tags_Len (case t of None \<Rightarrow> [] | Some m \<Rightarrow> m) + length key + length v + 2 > maxTagLength
        then Inr (Inl (TagsTooLong key v))
        else (case t of
                None \<Rightarrow> Inl NilMapAssignment
              | Some m \<Rightarrow> Inr (Inr (AList.update key v m))))"

definition Tags_Remove :: "Tags \<Rightarrow> string \<Rightarrow> bool \<times> Tags" where
  "Tags_Remove t key =
     (case map_of t key of Some v \<Rightarrow> (True, AList.delete key t) | None \<Rightarrow> (False, t))"


section \<open>event.go: sources and events\<close>

definition eventSpace :: char where "eventSpace = CHR 0x20"
definition maxLength :: nat where "maxLength = 510"
definition messagePrefix :: char where "messagePrefix = CHR 0x3A"
definition prefixIdent :: char where "prefixIdent = CHR 0x21"
definition prefixHost :: char where "prefixHost = CHR 0x40"

definition cutCRFunc :: "char \<Rightarrow> bool" where
  "cutCRFunc r = (r = CHR 0x0D \<or> r = CHR 0x0A)"

definition TrimFunc :: "string \<Rightarrow> (char \<Rightarrow> bool) \<Rightarrow> string" where
  \<comment> \<open>\<open>strings.TrimFunc\<close>; CR and LF are single octets, so trimming runes is trimming octets\<close>
  "TrimFunc s f = rev (dropWhile f (rev (dropWhile f s)))"

definition ascii_upper :: "char \<Rightarrow> char" where
  "ascii_upper c =
     (let b = (of_char c :: nat) in if 0x61 \<le> b \<and> b \<le> 0x7A then char_of (b - 0x20) else c)"

definition ToUpper :: "(string \<Rightarrow> string) \<Rightarrow> string \<Rightarrow> string" where
  \<comment> \<open>\<open>strings.ToUpper\<close>: octet-wise on an all-ASCII string; on any other string the
      library maps \<open>unicode.ToUpper\<close> over the runes, which is the parameter \<open>unicodeUpper\<close>\<close>
  "ToUpper unicodeUpper s =
     (if list_all (\<lambda>c. (of_char c :: nat) < 0x80) s then map ascii_upper s else unicodeUpper s)"

record Source =
  Name :: string
  Ident :: string
  Host :: string

text \<open>
  \<open>Source\<close> and \<open>Tags\<close> of an event are a pointer and a map: \<open>None\<close> is nil. \<open>Params\<close>
  is a slice that the functions of this section only measure and read, so a nil slice
  and an empty one are the same list \<open>[]\<close>.
\<close>

record Event =
  Source :: "Source option"
  Tags :: "Tags option"
  Command :: string
  Params :: "string list"
  Trailing :: string
  EmptyTrailing :: bool
  Sensitive :: bool

definition new_Event :: Event where
  \<comment> \<open>\<open>&Event{}\<close>\<close>
  "new_Event = \<lparr>Source = None, Tags = None, Command = [], Params = [], Trailing = [],
                 EmptyTrailing = False, Sensitive = False\<rparr>"

definition ParseSource :: "string \<Rightarrow> go_panic + Source" where
  "ParseSource raw =
     (let user = IndexByte raw prefixIdent;
          host = IndexByte raw prefixHost
      in
        if user > 0 \<and> host > user then
          bindE (slice_to raw user) (\<lambda>n.
          bindE (slice raw (user + 1) host) (\<lambda>i.
          bindE (slice_from raw (host + 1)) (\<lambda>h.
          Inr \<lparr>Name = n, Ident = i, Host = h\<rparr>)))
        else if user > 0 then
          bindE (slice_to raw user) (\<lambda>n.
          bindE (slice_from raw (user + 1)) (\<lambda>i.
          Inr \<lparr>Name = n, Ident = i, Host = []\<rparr>))
        else if host > 0 then
          bindE (slice_to raw host) (\<lambda>n.
          bindE (slice_from raw (host + 1)) (\<lambda>h.
          Inr \<lparr>Name = n, Ident = [], Host = h\<rparr>))
        else Inr \<lparr>Name = raw, Ident = [], Host = []\<rparr>)"

definition Source_Len :: "Source \<Rightarrow> nat" where
  "Source_Len s =
     (let l0 = length (Name s);
          l1 = (if length (Ident s) > 0 then 1 + l0 + length (Ident s) else l0);
          l2 = (if length (Host s) > 0 then 1 + l1 + length (Host s) else l1)
      in l2)"

definition Source_writeTo :: "Source \<Rightarrow> string \<Rightarrow> string" where
  \<comment> \<open>the buffer after \<open>s.writeTo(buffer)\<close>\<close>
  "Source_writeTo s buffer =
     buffer @ Name s
       @ (if length (Ident s) > 0 then prefixIdent # Ident s else [])
       @ (if length (Host s) > 0 then prefixHost # Host s else [])"

definition Source_Bytes :: "Source \<Rightarrow> string" where
  "Source_Bytes s = Source_writeTo s []"

definition IsHostmask :: "Source \<Rightarrow> bool" where
  "IsHostmask s = (length (Ident s) > 0 \<and> length (Host s) > 0)"

definition IsServer :: "Source \<Rightarrow> bool" where
  "IsServer s = (length (Ident s) \<le> 0 \<and> length (Host s) \<le> 0)"

text \<open>
  \<open>ParseEvent\<close>, in the order of the source. The result is a panic, \<open>Inr None\<close> for the
  nil event, or \<open>Inr (Some e)\<close>. The function is cut at its comments "Find prefix for
  trailer", "Find end of command" and at the test for the message prefix; each part is
  given the event built so far, the current \<open>raw\<close> and the current index.
\<close>

definition ParseEvent_params :: "Event \<Rightarrow> string \<Rightarrow> int \<Rightarrow> go_panic + Event option" where
  \<comment> \<open>from "Find prefix for trailer" on; \<open>j\<close> is the index after the command's space\<close>
  "ParseEvent_params e raw j =
     bindE (slice_from raw j) (\<lambda>rest.
     let i = IndexByte rest messagePrefix in
     bindE (if i < 0 then Inr True
            else bindE (byte_at raw (j + i - 1)) (\<lambda>c. Inr (c \<noteq> eventSpace))) (\<lambda>noTrailing.
     if noTrailing then Inr (Some (e\<lparr>Params := Split rest eventSpace\<rparr>))
     else
       let i = i + j in
       bindE (if i > j
              then bindE (slice raw j (i - 1)) (\<lambda>p. Inr (e\<lparr>Params := Split p eventSpace\<rparr>))
              else Inr e) (\<lambda>e.
       bindE (slice_from raw (i + 1)) (\<lambda>t.
       let e = e\<lparr>Trailing := t\<rparr> in
       Inr (Some (if length t \<le> 0 then e\<lparr>EmptyTrailing := True\<rparr> else e))))))"

definition ParseEvent_command ::
  "(string \<Rightarrow> string) \<Rightarrow> Event \<Rightarrow> string \<Rightarrow> int \<Rightarrow> go_panic + Event option" where
  \<comment> \<open>from "Find end of command" on; \<open>i\<close> is the index the code holds at that point\<close>
  "ParseEvent_command unicodeUpper e raw i =
     bindE (slice_from raw i) (\<lambda>r.
     let j = i + IndexByte r eventSpace in
     if j < i then Inr (Some (e\<lparr>Command := ToUpper unicodeUpper r\<rparr>))
     else
       bindE (slice raw i j) (\<lambda>c.
       ParseEvent_params (e\<lparr>Command := ToUpper unicodeUpper c\<rparr>) raw (j + 1)))"

definition ParseEvent_prefix ::
  "(string \<Rightarrow> string) \<Rightarrow> Event \<Rightarrow> string \<Rightarrow> int \<Rightarrow> go_panic + Event option" where
  \<comment> \<open>from \<open>if raw[0] == messagePrefix\<close> on\<close>
  "ParseEvent_prefix unicodeUpper e raw i =
     bindE (byte_at raw 0) (\<lambda>c.
     if c = messagePrefix then
       let i = IndexByte raw eventSpace in
       if i < 2 then Inr None
       else
         bindE (slice raw 1 i) (\<lambda>s.
         bindE (ParseSource s) (\<lambda>src.
         ParseEvent_command unicodeUpper (e\<lparr>Source := Some src\<rparr>) raw (i + 1)))
     else ParseEvent_command unicodeUpper e raw i)"

definition ParseEvent :: "(string \<Rightarrow> string) \<Rightarrow> string \<Rightarrow> go_panic + Event option" where
  "ParseEvent unicodeUpper raw0 =
     (let raw = TrimFunc raw0 cutCRFunc in
      if length raw < 2 then Inr None
      else
        bindE (byte_at raw 0) (\<lambda>c.
        if c = prefixTag then
          let i = IndexByte raw eventSpace in
          if i < 2 then Inr None
          else
            bindE (slice raw 1 i) (\<lambda>s.
            bindE (ParseTags s) (\<lambda>t.
            bindE (slice_from raw (i + 1)) (\<lambda>raw'.
            ParseEvent_prefix unicodeUpper (new_Event\<lparr>Tags := Some t\<rparr>) raw' i)))
        else ParseEvent_prefix unicodeUpper new_Event raw 0))"

text \<open>
  \<open>Event.Len\<close> and \<open>Event.Bytes\<close> each range over the tag map of the event, in orders
  that need not agree. The list held in the event is the order of the range that
  \<open>Event.Bytes\<close> makes (through \<open>Tags.writeTo\<close>); the range that \<open>Event.Len\<close> makes (through
  \<open>Tags.Len\<close>) visits the entries in the order \<open>rng\<close>, a list with the same entries.
\<close>

definition Event_Len :: "Tags \<Rightarrow> Event \<Rightarrow> nat" where
  "Event_Len rng e =
     (let l0 = (case Tags e of Some t \<Rightarrow> Tags_Len rng + 1 | None \<Rightarrow> 0);
          l1 = (case Source e of Some s \<Rightarrow> l0 + (Source_Len s + 2) | None \<Rightarrow> l0);
          l2 = l1 + length (Command e);
          l3 = (if length (Params e) > 0
                then l2 + length (Params e) + sum_list (map length (Params e)) else l2);
          l4 = (if length (Trailing e) > 0 \<or> EmptyTrailing e
                then l3 + (length (Trailing e) + 2) else l3)
      in l4)"

definition Event_buffer :: "Event \<Rightarrow> string" where
  \<comment> \<open>the buffer of \<open>Event.Bytes\<close> when it reaches "We need the limit the buffer length"\<close>
  "Event_buffer e =
     (let b0 = (case Tags e of Some t \<Rightarrow> Tags_writeTo t [] | None \<Rightarrow> []);
          b1 = (case Source e of
                  Some s \<Rightarrow> Source_writeTo s (b0 @ [messagePrefix]) @ [eventSpace]
                | None \<Rightarrow> b0);
          b2 = b1 @ Command e;
          b3 = (if length (Params e) > 0
                then b2 @ [eventSpace] @ Join (Params e) eventSpace else b2);
          b4 = (if length (Trailing e) > 0 \<or> EmptyTrailing e
                then b3 @ [eventSpace] @ [messagePrefix] @ Trailing e else b3)
      in b4)"

definition Truncate :: "string \<Rightarrow> nat \<Rightarrow> go_panic + string" where
  \<comment> \<open>\<open>bytes.Buffer.Truncate\<close> panics when \<open>n\<close> is greater than the length of the buffer\<close>
  "Truncate buffer n = (if n > length buffer then Inl TruncateOutOfRange else Inr (take n buffer))"

fun stripCRLF :: "string \<Rightarrow> string" where
  \<comment> \<open>the last loop of \<open>Event.Bytes\<close>, which deletes each 0x0A and 0x0D in place\<close>
  "stripCRLF [] = []"
| "stripCRLF (c # out) =
     (if c = CHR 0x0A \<or> c = CHR 0x0D then stripCRLF out else c # stripCRLF out)"

definition Event_Bytes :: "Event \<Rightarrow> go_panic + string" where
  "Event_Bytes e =
     (let buffer = Event_buffer e in
      bindE (if length buffer > maxLength then
               (if Tags e \<noteq> None then Truncate buffer (maxLength + maxTagLength + 1)
                else Truncate buffer maxLength)
             else Inr buffer) (\<lambda>out.
      Inr (stripCRLF out)))"

section \<open>Event.Copy on the heap\<close>

text \<open>
  What \<open>Event.Copy\<close> shares with its argument depends on pointers, so it is modelled on
  an explicit store. An \<open>Event\<close> struct in memory holds a pointer to its \<open>Source\<close>, a
  reference to its tag map and a slice header for \<open>Params\<close> (the backing array, the
  offset of the first element and the length); \<open>None\<close> is nil in all three.
\<close>

type_synonym addr = nat

record slice_hdr =
  array :: addr
  offset :: nat
  len :: nat

record Event_struct =
  Source_ptr :: "addr option"
  Tags_ref :: "addr option"
  Command_fld :: string
  Params_hdr :: "slice_hdr option"
  Trailing_fld :: string
  EmptyTrailing_fld :: bool
  Sensitive_fld :: bool

record heap =
  events :: "addr \<Rightarrow> Event_struct option"
  sources :: "addr \<Rightarrow> Source option"
  tagmaps :: "addr \<Rightarrow> Tags option"
  arrays :: "addr \<Rightarrow> string list option"
  fresh :: addr

datatype heap_fault =
    NilDereference
  | DanglingPointer
  | IndexOutOfBounds

definition bindH :: "heap_fault + 'a \<Rightarrow> ('a \<Rightarrow> heap_fault + 'b) \<Rightarrow> heap_fault + 'b" where
  "bindH m f = (case m of Inl p \<Rightarrow> Inl p | Inr x \<Rightarrow> f x)"

definition load_event :: "heap \<Rightarrow> addr \<Rightarrow> heap_fault + Event_struct" where
  "load_event h p = (case events h p of None \<Rightarrow> Inl DanglingPointer | Some ev \<Rightarrow> Inr ev)"

definition load_source :: "heap \<Rightarrow> addr option \<Rightarrow> heap_fault + Source" where
  \<comment> \<open>\<open>*p\<close> for a \<open>*Source\<close>\<close>
  "load_source h p =
     (case p of None \<Rightarrow> Inl NilDereference
      | Some a \<Rightarrow> (case sources h a of None \<Rightarrow> Inl DanglingPointer | Some s \<Rightarrow> Inr s))"

definition store_source :: "heap \<Rightarrow> addr option \<Rightarrow> Source \<Rightarrow> heap_fault + heap" where
  \<comment> \<open>\<open>*p = s\<close> for a \<open>*Source\<close>\<close>
  "store_source h p s =
     (case p of None \<Rightarrow> Inl NilDereference
      | Some a \<Rightarrow> Inr (h\<lparr>sources := (sources h)(a := Some s)\<rparr>))"

definition load_slice :: "heap \<Rightarrow> slice_hdr \<Rightarrow> heap_fault + string list" where
  \<comment> \<open>the elements a slice header denotes\<close>
  "load_slice h sl =
     (case arrays h (array sl) of None \<Rightarrow> Inl DanglingPointer
      | Some a \<Rightarrow>
          if offset sl + len sl \<le> length a then Inr (take (len sl) (drop (offset sl) a))
          else Inl IndexOutOfBounds)"

definition copy_slice :: "heap \<Rightarrow> slice_hdr \<Rightarrow> slice_hdr \<Rightarrow> heap_fault + heap" where
  \<comment> \<open>the builtin \<open>copy(dst, src)\<close>: the first \<open>min(len(dst), len(src))\<close> elements of
      \<open>src\<close> are read, then written over the same number of elements of \<open>dst\<close>\<close>
  "copy_slice h dst src =
     bindH (load_slice h src) (\<lambda>vals.
     case arrays h (array dst) of None \<Rightarrow> Inl DanglingPointer
     | Some a \<Rightarrow>
         let n = min (len dst) (len src);
             a' = take (offset dst) a @ take n vals @ drop (offset dst + n) a
         in Inr (h\<lparr>arrays := (arrays h)(array dst := Some a')\<rparr>))"

definition Event_Copy :: "heap \<Rightarrow> addr \<Rightarrow> heap_fault + (heap \<times> addr)" where
  \<comment> \<open>\<open>e.Copy()\<close> for the event at address \<open>e\<close>: the heap afterwards and the address returned\<close>
  "Event_Copy h e =
     bindH (load_event h e) (\<lambda>ev.
     let newEvent = fresh h;
         h1 = h\<lparr>events := (events h)(newEvent := Some ev), fresh := newEvent + 1\<rparr>
     in
     bindH (if Source_ptr ev \<noteq> None then
              bindH (load_event h1 newEvent) (\<lambda>nev.
              bindH (load_source h1 (Source_ptr ev)) (\<lambda>s.
              store_source h1 (Source_ptr nev) s))
            else Inr h1) (\<lambda>h2.
     bindH (case Params_hdr ev of
              Some src \<Rightarrow>
                bindH (load_event h2 newEvent) (\<lambda>nev.
                case Params_hdr nev of
                  Some dst \<Rightarrow> copy_slice h2 dst src
                | None \<Rightarrow> Inr h2)
            | None \<Rightarrow> Inr h2) (\<lambda>h3.
     bindH (case Tags_ref ev of
              Some r \<Rightarrow>
                (case tagmaps h3 r of None \<Rightarrow> Inl DanglingPointer
                 | Some t \<Rightarrow>
                     bindH (load_event h3 newEvent) (\<lambda>nev.
                     let m = fresh h3;
                         t' = foldl (\<lambda>acc (k, v). AList.update k v acc) [] t
                     in Inr (h3\<lparr>tagmaps := (tagmaps h3)(m := Some t'),
                                events := (events h3)(newEvent := Some (nev\<lparr>Tags_ref := Some m\<rparr>)),
                                fresh := m + 1\<rparr>)))
            | None \<Rightarrow> Inr h3) (\<lambda>h4.
     Inr (h4, newEvent)))))"

definition set_Source_Name :: "heap \<Rightarrow> addr \<Rightarrow> string \<Rightarrow> heap_fault + heap" where
  \<comment> \<open>the assignment \<open>e.Source.Name = v\<close>\<close>
  "set_Source_Name h e v =
     bindH (load_event h e) (\<lambda>ev.
     bindH (load_source h (Source_ptr ev)) (\<lambda>s.
     store_source h (Source_ptr ev) (s\<lparr>Name := v\<rparr>)))"

definition get_Source_Name :: "heap \<Rightarrow> addr \<Rightarrow> heap_fault + string" where
  \<comment> \<open>the expression \<open>e.Source.Name\<close>\<close>
  "get_Source_Name h e =
     bindH (load_event h e) (\<lambda>ev.
     bindH (load_source h (Source_ptr ev)) (\<lambda>s. Inr (Name s)))"

definition set_Param :: "heap \<Rightarrow> addr \<Rightarrow> nat \<Rightarrow> string \<Rightarrow> heap_fault + heap" where
  \<comment> \<open>the assignment \<open>e.Params[i] = v\<close>\<close>
  "set_Param h e i v =
     bindH (load_event h e) (\<lambda>ev.
     case Params_hdr ev of None \<Rightarrow> Inl IndexOutOfBounds
     | Some sl \<Rightarrow>
         if i < len sl then
           (case arrays h (array sl) of None \<Rightarrow> Inl DanglingPointer
            | Some a \<Rightarrow> Inr (h\<lparr>arrays := (arrays h)(array sl := Some (a[offset sl + i := v]))\<rparr>))
         else Inl IndexOutOfBounds)"

definition get_Params :: "heap \<Rightarrow> addr \<Rightarrow> heap_fault + string list" where
  \<comment> \<open>the elements of \<open>e.Params\<close>\<close>
  "get_Params h e =
     bindH (load_event h e) (\<lambda>ev.
     case Params_hdr ev of None \<Rightarrow> Inr [] | Some sl \<Rightarrow> load_slice h sl)"

definition set_Tag :: "heap \<Rightarrow> addr \<Rightarrow> string \<Rightarrow> string \<Rightarrow> heap_fault + heap" where
  \<comment> \<open>the assignment \<open>e.Tags[k] = v\<close>\<close>
  "set_Tag h e k v =
     bindH (load_event h e) (\<lambda>ev.
     case Tags_ref ev of None \<Rightarrow> Inl NilDereference
     | Some r \<Rightarrow>
         (case tagmaps h r of None \<Rightarrow> Inl DanglingPointer
          | Some t \<Rightarrow> Inr (h\<lparr>tagmaps := (tagmaps h)(r := Some (AList.update k v t))\<rparr>)))"

definition get_Tag :: "heap \<Rightarrow> addr \<Rightarrow> string \<Rightarrow> heap_fault + string option" where
  \<comment> \<open>the lookup \<open>e.Tags[k]\<close>, \<open>None\<close> when the key is absent or the map nil\<close>
  "get_Tag h e k =
     bindH (load_event h e) (\<lambda>ev.
     case Tags_ref ev of None \<Rightarrow> Inr None
     | Some r \<Rightarrow>
         (case tagmaps h r of None \<Rightarrow> Inl DanglingPointer | Some t \<Rightarrow> Inr (map_of t k)))"

section \<open>The built-in WHO handler\<close>

text \<open>
  \<open>handleWHO\<close> reads the event and writes the client's state through
  \<open>createUserIfNotExists\<close> and through the user pointer that function returns. The state
  store and the numeric \<open>RPL_WHOSPCRPL\<close> are declared in other files of the package; here
  they are parameters: the numeric, the function, and \<open>assign\<close>, which writes one field of
  the user a pointer denotes. The mutex is left out: the model is sequential.
\<close>

datatype user_field = User_Host | User_Ident | User_Extras_Name | User_Extras_Account

definition param_at :: "string list \<Rightarrow> nat \<Rightarrow> go_panic + string" where
  \<comment> \<open>\<open>e.Params[i]\<close>\<close>
  "param_at ps i = (if i < length ps then Inr (ps ! i) else Inl IndexOutOfRange)"

definition handleWHO ::
  "string \<Rightarrow> ('s \<Rightarrow> string \<Rightarrow> string \<Rightarrow> 's \<times> 'u option) \<Rightarrow> ('u \<Rightarrow> user_field \<Rightarrow> string \<Rightarrow> 's \<Rightarrow> 's)
     \<Rightarrow> 's \<Rightarrow> Event \<Rightarrow> go_panic + 's" where
  "handleWHO RPL_WHOSPCRPL createUserIfNotExists assign st e =
     bindE (if Command e = RPL_WHOSPCRPL then
              (if length (Params e) \<noteq> 7 then Inr None
               else
                 bindE (param_at (Params e) 1) (\<lambda>p1.
                 if p1 \<noteq> ''1'' then Inr None
                 else
                   bindE (param_at (Params e) 2) (\<lambda>channel.
                   bindE (param_at (Params e) 3) (\<lambda>ident.
                   bindE (param_at (Params e) 4) (\<lambda>host.
                   bindE (param_at (Params e) 5) (\<lambda>nick.
                   bindE (param_at (Params e) 6) (\<lambda>account.
                   Inr (Some (channel, ident, host, nick, account)))))))))
            else
              bindE (param_at (Params e) 1) (\<lambda>channel.
              bindE (param_at (Params e) 2) (\<lambda>ident.
              bindE (param_at (Params e) 3) (\<lambda>host.
              bindE (param_at (Params e) 5) (\<lambda>nick.
              Inr (Some (channel, ident, host, nick, []))))))) (\<lambda>fields.
     case fields of
       None \<Rightarrow> Inr st
     | Some (channel, ident, host, nick, account) \<Rightarrow>
         (case createUserIfNotExists st channel nick of
            (st1, None) \<Rightarrow> Inr st1
          | (st1, Some user) \<Rightarrow>
              let st2 = assign user User_Host host st1;
                  st3 = assign user User_Ident ident st2;
                  st4 = assign user User_Extras_Name (Trailing e) st3
              in Inr (if account \<noteq> ''0'' then assign user User_Extras_Account account st4
                      else st4)))"

section \<open>Vocabulary of the properties\<close>

definition tagCharset :: string where
  \<comment> \<open>the characters of a tag name, \<open>[A-Za-z0-9/_.-]\<close>\<close>
  "tagCharset = ''ABCDEFGHIJKLMNOPQRSTUVWXYZabcdefghijklmnopqrstuvwxyz0123456789/_.-''"

definition crlf_free :: "string \<Rightarrow> bool" where
  "crlf_free s = list_all (\<lambda>c. \<not> cutCRFunc c) s"

definition Event_crlf_free :: "Event \<Rightarrow> bool" where
  \<comment> \<open>no field of the event holds a CR or an LF\<close>
  "Event_crlf_free e =
     (crlf_free (Command e) \<and> list_all crlf_free (Params e) \<and> crlf_free (Trailing e)
      \<and> (case Source e of None \<Rightarrow> True
          | Some s \<Rightarrow> crlf_free (Name s) \<and> crlf_free (Ident s) \<and> crlf_free (Host s))
      \<and> (case Tags e of None \<Rightarrow> True
          | Some t \<Rightarrow> list_all (\<lambda>(k, v). crlf_free k \<and> crlf_free v) t))"

definition tag_entry :: "string \<times> string \<Rightarrow> string" where
  \<comment> \<open>what one round of the loop of \<open>Tags.Bytes\<close> appends for an entry\<close>
  "tag_entry kv =
     fst kv @ (if length (snd kv) > 0 then prefixTagValue # snd kv else []) @ [tagSeparator]"

definition tags_encoding :: "Tags \<Rightarrow> string" where
  \<comment> \<open>the entries in list order, each as the loop of \<open>Tags.Bytes\<close> writes it, none left out\<close>
  "tags_encoding t = concat (map tag_entry t)"

definition entry_cost :: "string \<times> string \<Rightarrow> nat" where
  \<comment> \<open>the size that the tests of \<open>Tags.Bytes\<close> and \<open>Tags.Set\<close> reckon for an entry\<close>
  "entry_cost kv = length (fst kv) + length (snd kv) + 2"

definition tags_fit :: "Tags \<Rightarrow> bool" where
  \<comment> \<open>the reckoned sizes of all entries together are within the ceiling\<close>
  "tags_fit t = (sum_list (map entry_cost t) \<le> maxTagLength)"

definition range_order :: "Event \<Rightarrow> Tags \<Rightarrow> bool" where
  \<comment> \<open>\<open>rng\<close> is an order in which a range visits the tag map of the event\<close>
  "range_order e rng = (case Tags e of None \<Rightarrow> rng = [] | Some t \<Rightarrow> mset rng = mset t)"

definition tags_nil_or_fit :: "Event \<Rightarrow> bool" where
  \<comment> \<open>the tags are nil, or there is at least one and together they fit\<close>
  "tags_nil_or_fit e = (case Tags e of None \<Rightarrow> True | Some t \<Rightarrow> t \<noteq> [] \<and> tags_fit t)"

definition Len_agrees_with_Bytes :: "Tags \<Rightarrow> Event \<Rightarrow> bool" where
  \<comment> \<open>\<open>Event.Bytes\<close> returns, and \<open>Event.Len\<close>, ranging in the order \<open>rng\<close>, is the number of
      octets it returns\<close>
  "Len_agrees_with_Bytes rng e =
     (case Event_Bytes e of Inl p \<Rightarrow> False | Inr out \<Rightarrow> length out = Event_Len rng e)"

definition heap_one_event :: heap where
  \<comment> \<open>a heap with one event, at address 0, whose source, tag map and parameter array are
      each at address 0 of their kind\<close>
  "heap_one_event =
     \<lparr>events = (\<lambda>a. None)
        (0 := Some \<lparr>Source_ptr = Some 0, Tags_ref = Some 0, Command_fld = ''PRIVMSG'',
                    Params_hdr = Some \<lparr>array = 0, offset = 0, len = 1\<rparr>,
                    Trailing_fld = ''hi'', EmptyTrailing_fld = False, Sensitive_fld = False\<rparr>),
      sources = (\<lambda>a. None)(0 := Some \<lparr>Name = ''nick'', Ident = ''user'', Host = ''host''\<rparr>),
      tagmaps = (\<lambda>a. None)(0 := Some [(''a'', ''b'')]),
      arrays = (\<lambda>a. None)(0 := Some [''#chan'']),
      fresh = 1\<rparr>"

definition source_atom :: "string \<Rightarrow> bool" where
  \<comment> \<open>a field of a source that is written and read back unchanged\<close>
  "source_atom x =
     list_all (\<lambda>c. c \<notin> set [eventSpace, prefixIdent, prefixHost, CHR 0x0D, CHR 0x0A]) x"

definition valid_Source :: "Source \<Rightarrow> bool" where
  "valid_Source s =
     (Name s \<noteq> [] \<and> source_atom (Name s) \<and> source_atom (Ident s) \<and> source_atom (Host s))"

definition valid_Command :: "string \<Rightarrow> bool" where
  \<comment> \<open>upper-case letters and digits\<close>
  "valid_Command c = list_all (\<lambda>x. x \<in> set ''ABCDEFGHIJKLMNOPQRSTUVWXYZ0123456789'') c"

definition middle_param :: "string \<Rightarrow> bool" where
  "middle_param p =
     list_all (\<lambda>c. c \<notin> set [eventSpace, messagePrefix, CHR 0x0D, CHR 0x0A]) p"

definition valid_untagged_Event :: "Event \<Rightarrow> bool" where
  \<comment> \<open>an event without tags whose fields are valid and whose line has 2 to 510 octets\<close>
  "valid_untagged_Event e =
     (Tags e = None
      \<and> (case Source e of None \<Rightarrow> True | Some s \<Rightarrow> valid_Source s)
      \<and> valid_Command (Command e)
      \<and> list_all middle_param (Params e)
      \<and> crlf_free (Trailing e)
      \<and> (EmptyTrailing e \<longrightarrow> Trailing e = [])
      \<and> 2 \<le> Event_Len [] e \<and> Event_Len [] e \<le> maxLength)"

section \<open>Evaluation rules\<close>

lemmas go_string_defs = byte_at_def slice_def slice_from_def slice_to_def IndexByte_def bindE_def

lemmas char_defs = prefixTag_def prefixTagValue_def tagSeparator_def eventSpace_def
  messagePrefix_def prefixIdent_def prefixHost_def

lemmas ParseEvent_defs = ParseEvent_def ParseEvent_prefix_def ParseEvent_command_def
  ParseEvent_params_def ParseSource_def ParseTags_def ParseTags_step_def TrimFunc_def
  cutCRFunc_def ToUpper_def ascii_upper_def new_Event_def char_of_def bit_0

lemmas Event_Bytes_defs = Event_Bytes_def Event_buffer_def Tags_writeTo_def Tags_Bytes_def
  Source_writeTo_def Truncate_def maxLength_def maxTagLength_def new_Event_def

lemmas heap_defs = Event_Copy_def bindH_def load_event_def load_source_def store_source_def
  copy_slice_def load_slice_def set_Source_Name_def get_Source_Name_def set_Param_def
  get_Params_def set_Tag_def get_Tag_def Let_def

section \<open>The tag codec\<close>

subsection \<open>Escaping of tag values\<close>

lemma tagEncoder_Cons:
  "tagEncoder (c # cs) =
     (if c = CHR '';'' then [CHR 0x5C, CHR '':'']
      else if c = CHR 0x20 then [CHR 0x5C, CHR ''s'']
      else if c = CHR 0x5C then [CHR 0x5C, CHR 0x5C]
      else if c = CHR 0x0D then [CHR 0x5C, CHR ''r'']
      else if c = CHR 0x0A then [CHR 0x5C, CHR ''n'']
      else [c]) @ tagEncoder cs"
  by (simp add: tagEncoder_def tagEncode_def)

lemma tagEncoder_Nil: "tagEncoder [] = []"
  by (simp add: tagEncoder_def)

lemma tagDecoder_Nil: "tagDecoder [] = []"
  by (simp add: tagDecoder_def)

lemma tagDecoder_escape:
  "tagDecoder (CHR 0x5C # CHR '':'' # r) = CHR '';'' # tagDecoder r"
  "tagDecoder (CHR 0x5C # CHR ''s'' # r) = CHR 0x20 # tagDecoder r"
  "tagDecoder (CHR 0x5C # CHR 0x5C # r) = CHR 0x5C # tagDecoder r"
  "tagDecoder (CHR 0x5C # CHR ''r'' # r) = CHR 0x0D # tagDecoder r"
  "tagDecoder (CHR 0x5C # CHR ''n'' # r) = CHR 0x0A # tagDecoder r"
  by (simp_all add: tagDecoder_def tagDecode_def)

lemma tagDecoder_plain: "c \<noteq> CHR 0x5C \<Longrightarrow> tagDecoder (c # r) = c # tagDecoder r"
  by (simp add: tagDecoder_def tagDecode_def)

lemma tagDecoder_tagEncoder: "tagDecoder (tagEncoder s) = s"
proof (induction s)
  case Nil
  show ?case by (simp add: tagEncoder_Nil tagDecoder_Nil)
next
  case (Cons c cs)
  then show ?case
    by (simp add: tagEncoder_Cons tagDecoder_escape tagDecoder_plain)
qed

lemma tagEncoder_injective: "tagEncoder a = tagEncoder b \<Longrightarrow> a = b"
  by (metis tagDecoder_tagEncoder)

text \<open>
  C8. Decoding the encoding of a tag value gives the value back, for every string of
  octets (the printable ones and \<open>;\<close>, space, backslash, CR and LF among them); and a
  value stored by \<open>Tags.Set\<close>, on whatever map, is the value \<open>Tags.Get\<close> retrieves under
  that key.
\<close>

theorem tag_escape_roundtrip:
  "tagDecoder (tagEncoder s) = s
   \<and> (Tags_Set t key s = Inr (Inr t') \<longrightarrow> Tags_Get t' key = (s, True))"
proof
  show "tagDecoder (tagEncoder s) = s" by (rule tagDecoder_tagEncoder)
  show "Tags_Set t key s = Inr (Inr t') \<longrightarrow> Tags_Get t' key = (s, True)"
  proof
    assume "Tags_Set t key s = Inr (Inr t')"
    then obtain m where "t' = AList.update key (tagEncoder s) m"
      by (auto simp: Tags_Set_def Let_def split: if_splits option.splits)
    then show "Tags_Get t' key = (s, True)"
      by (simp add: Tags_Get_def update_conv' tagDecoder_tagEncoder)
  qed
qed

theorem tag_escape_roundtrip_witness:
  "Tags_Set (Some []) ''k'' [CHR '';'', CHR 0x20, CHR 0x5C, CHR 0x0D, CHR 0x0A, CHR ''x'']
     = Inr (Inr [(''k'', [CHR 0x5C, CHR '':'', CHR 0x5C, CHR ''s'', CHR 0x5C, CHR 0x5C,
                         CHR 0x5C, CHR ''r'', CHR 0x5C, CHR ''n'', CHR ''x''])])
   \<and> Tags_Get [(''k'', [CHR 0x5C, CHR '':'', CHR 0x5C, CHR ''s'', CHR 0x5C, CHR 0x5C,
                       CHR 0x5C, CHR ''r'', CHR 0x5C, CHR ''n'', CHR ''x''])] ''k''
     = ([CHR '';'', CHR 0x20, CHR 0x5C, CHR 0x0D, CHR 0x0A, CHR ''x''], True)"
proof -
  let ?s = "[CHR '';'', CHR 0x20, CHR 0x5C, CHR 0x0D, CHR 0x0A, CHR ''x'']"
  let ?t = "[(''k'', [CHR 0x5C, CHR '':'', CHR 0x5C, CHR ''s'', CHR 0x5C, CHR 0x5C,
                     CHR 0x5C, CHR ''r'', CHR 0x5C, CHR ''n'', CHR ''x''])]"
  have stored: "Tags_Set (Some []) ''k'' ?s = Inr (Inr ?t)"
    by (simp add: Tags_Set_def validTag_def validTag_byte_def Tags_Len_def Tags_String_def
        Tags_Bytes_def maxTagLength_def tagEncoder_Cons tagEncoder_Nil)
  with tag_escape_roundtrip [of ?s "Some []" "''k''" ?t] show ?thesis by simp
qed

subsection \<open>Tag names, \<open>Tags.Set\<close> and the length ceiling\<close>

lemma tagCharset_enum:
  "\<forall>n\<in>set ([65..<91] @ [97..<123] @ [45..<58] @ [95::nat]). char_of n \<in> set tagCharset"
  by code_simp

lemma validTag_byte_charset: "validTag_byte c \<longleftrightarrow> c \<in> set tagCharset"
proof
  assume v: "validTag_byte c"
  let ?n = "of_char c :: nat"
  from v have "?n \<in> {65..<91} \<union> {97..<123} \<union> {45..<58} \<union> {95}"
    unfolding validTag_byte_def Let_def
    by (simp only: Un_iff atLeastLessThan_iff insert_iff empty_iff) arith
  then have "?n \<in> set ([65..<91] @ [97..<123] @ [45..<58] @ [95::nat])"
    by (simp only: set_append set_upt list.set Un_assoc)
  with tagCharset_enum have "char_of ?n \<in> set tagCharset" by blast
  then show "c \<in> set tagCharset" by simp
next
  assume "c \<in> set tagCharset"
  then show "validTag_byte c"
    by (auto simp: tagCharset_def validTag_byte_def)
qed

lemma validTag_charset: "validTag key \<longleftrightarrow> key \<noteq> [] \<and> set key \<subseteq> set tagCharset"
  by (cases key) (auto simp: validTag_def list_all_iff validTag_byte_charset)

lemma tagEncoder_replicate_plain:
  "c \<notin> set [CHR '';'', CHR 0x20, CHR 0x5C, CHR 0x0D, CHR 0x0A] \<Longrightarrow>
   tagEncoder (replicate n c) = replicate n c"
  by (induction n) (simp_all add: tagEncoder_Nil tagEncoder_Cons)

lemma length_tag_entry_le: "length (tag_entry kv) \<le> entry_cost kv"
  by (simp add: tag_entry_def entry_cost_def)

lemma length_tag_entry_value:
  "snd kv \<noteq> [] \<Longrightarrow> length (tag_entry kv) = entry_cost kv"
  by (simp add: tag_entry_def entry_cost_def)

lemma tags_encoding_simps [simp]:
  "tags_encoding [] = []"
  "tags_encoding (kv # t) = tag_entry kv @ tags_encoding t"
  "tags_encoding (a @ b) = tags_encoding a @ tags_encoding b"
  by (simp_all add: tags_encoding_def)

lemma length_tags_encoding_le: "length (tags_encoding t) \<le> sum_list (map entry_cost t)"
proof (induction t)
  case Nil
  show ?case by simp
next
  case (Cons kv t)
  with length_tag_entry_le [of kv] show ?case by simp
qed

lemma Tags_Bytes_loop_bound:
  "length buffer \<le> maxTagLength \<Longrightarrow> length (Tags_Bytes_loop mx current t buffer) \<le> maxTagLength"
  by (induction mx current t buffer rule: Tags_Bytes_loop.induct) auto

lemma Tags_Bytes_bound: "length (Tags_Bytes t) \<le> maxTagLength"
  by (simp add: Tags_Bytes_def Tags_Bytes_loop_bound)

lemma Tags_Bytes_loop_all:
  "current + length t \<le> mx \<Longrightarrow> length buffer + sum_list (map entry_cost t) \<le> maxTagLength \<Longrightarrow>
   Tags_Bytes_loop mx current t buffer = buffer @ tags_encoding t"
proof (induction mx current t buffer rule: Tags_Bytes_loop.induct)
  case (1 mx current buffer)
  show ?case by simp
next
  case (2 mx current tagName tagValue rest buffer)
  let ?b = "buffer @ tagName @ (if length tagValue > 0 then prefixTagValue # tagValue else [])
              @ (if current \<le> mx then [tagSeparator] else [])"
  from "2.prems" have fit: "\<not> length buffer + length tagName + length tagValue + 2 > maxTagLength"
    by (simp add: entry_cost_def)
  from "2.prems" have cur: "current \<le> mx" "current + 1 + length rest \<le> mx" by simp_all
  have "length ?b \<le> length buffer + entry_cost (tagName, tagValue)"
    by (simp add: entry_cost_def)
  with "2.prems" have "length ?b + sum_list (map entry_cost rest) \<le> maxTagLength" by simp
  with "2.IH" [OF fit cur(2)] have "Tags_Bytes_loop mx (current + 1) rest ?b = ?b @ tags_encoding rest"
    by simp
  with fit cur show ?case by (simp add: tag_entry_def)
qed

lemma Tags_Bytes_all: "tags_fit t \<Longrightarrow> Tags_Bytes t = tags_encoding t"
  by (cases t) (simp_all add: Tags_Bytes_def tags_fit_def Tags_Bytes_loop_all)

lemma sum_list_map_mset_cong:
  "mset a = mset b \<Longrightarrow> sum_list (map f a) = (sum_list (map f b) :: nat)"
proof -
  assume "mset a = mset b"
  then have "image_mset f (mset a) = image_mset f (mset b)" by simp
  then have "mset (map f a) = mset (map f b)" by (simp only: mset_map)
  then have "sum_mset (mset (map f a)) = sum_mset (mset (map f b))" by simp
  then show ?thesis by (simp only: sum_mset_sum_list)
qed

lemma tags_fit_range: "mset ord = mset t \<Longrightarrow> tags_fit ord = tags_fit t"
  by (simp add: tags_fit_def sum_list_map_mset_cong [of ord t entry_cost])

lemma length_tags_encoding_range:
  "mset ord = mset t \<Longrightarrow> length (tags_encoding ord) = length (tags_encoding t)"
  using sum_list_map_mset_cong [of ord t "\<lambda>kv. length (tag_entry kv)"]
  by (simp add: tags_encoding_def length_concat comp_def)

lemma Tags_Bytes_loop_exact:
  "current + length t \<le> mx \<Longrightarrow>
   \<exists>n\<le>length t. Tags_Bytes_loop mx current t buffer = buffer @ tags_encoding (take n t)
     \<and> (\<forall>i<n. length buffer + length (tags_encoding (take i t)) + entry_cost (t ! i) \<le> maxTagLength)
     \<and> (n < length t \<longrightarrow>
          length buffer + length (tags_encoding (take n t)) + entry_cost (t ! n) > maxTagLength)"
proof (induction mx current t buffer rule: Tags_Bytes_loop.induct)
  case (1 mx current buffer)
  show ?case by simp
next
  case (2 mx current tagName tagValue rest buffer)
  let ?t = "(tagName, tagValue) # rest"
  show ?case
  proof (cases "length buffer + length tagName + length tagValue + 2 > maxTagLength")
    case True
    then have "Tags_Bytes_loop mx current ?t buffer = buffer @ tags_encoding (take 0 ?t)
        \<and> (\<forall>i<0. length buffer + length (tags_encoding (take i ?t)) + entry_cost (?t ! i) \<le> maxTagLength)
        \<and> (0 < length ?t \<longrightarrow>
             length buffer + length (tags_encoding (take 0 ?t)) + entry_cost (?t ! 0) > maxTagLength)"
      by (simp add: entry_cost_def)
    then show ?thesis by blast
  next
    case False
    let ?b = "buffer @ tagName @ (if length tagValue > 0 then prefixTagValue # tagValue else [])
                @ (if current \<le> mx then [tagSeparator] else [])"
    let ?bb = "buffer @ tag_entry (tagName, tagValue)"
    from "2.prems" have le: "current \<le> mx" and le': "current + 1 + length rest \<le> mx" by simp_all
    from le have b: "?b = ?bb" by (simp add: tag_entry_def)
    from "2.IH" [OF False le', unfolded b] obtain n where n: "n \<le> length rest"
      and eq: "Tags_Bytes_loop mx (current + 1) rest ?bb = ?bb @ tags_encoding (take n rest)"
      and fits: "\<forall>i<n. length ?bb + length (tags_encoding (take i rest)) + entry_cost (rest ! i) \<le> maxTagLength"
      and stop: "n < length rest \<longrightarrow>
          length ?bb + length (tags_encoding (take n rest)) + entry_cost (rest ! n) > maxTagLength"
      by blast
    from False have "Tags_Bytes_loop mx current ?t buffer = Tags_Bytes_loop mx (current + 1) rest ?b"
      by simp
    with b eq have 1: "Tags_Bytes_loop mx current ?t buffer = buffer @ tags_encoding (take (Suc n) ?t)"
      by simp
    have 2: "\<forall>i<Suc n. length buffer + length (tags_encoding (take i ?t)) + entry_cost (?t ! i) \<le> maxTagLength"
    proof (intro allI impI)
      fix i assume i: "i < Suc n"
      show "length buffer + length (tags_encoding (take i ?t)) + entry_cost (?t ! i) \<le> maxTagLength"
      proof (cases i)
        case 0
        with False show ?thesis by (simp add: entry_cost_def)
      next
        case (Suc k)
        with i have "k < n" by simp
        with fits have "length ?bb + length (tags_encoding (take k rest)) + entry_cost (rest ! k) \<le> maxTagLength"
          by blast
        with Suc show ?thesis by (simp add: add.assoc)
      qed
    qed
    have 3: "Suc n < length ?t \<longrightarrow>
          length buffer + length (tags_encoding (take (Suc n) ?t)) + entry_cost (?t ! Suc n) > maxTagLength"
      using stop by (simp add: add.assoc)
    from n have "Suc n \<le> length ?t" by simp
    with 1 2 3 show ?thesis by blast
  qed
qed

lemma Tags_Bytes_exact:
  "\<exists>n\<le>length t. Tags_Bytes t = tags_encoding (take n t)
     \<and> (\<forall>i<n. length (tags_encoding (take i t)) + entry_cost (t ! i) \<le> maxTagLength)
     \<and> (n < length t \<longrightarrow> length (tags_encoding (take n t)) + entry_cost (t ! n) > maxTagLength)"
proof (cases t)
  case Nil
  then show ?thesis by (simp add: Tags_Bytes_def)
next
  case (Cons a list)
  then have "Tags_Bytes t = Tags_Bytes_loop (length t) 0 t []" by (simp add: Tags_Bytes_def)
  with Tags_Bytes_loop_exact [of 0 t "length t" "[]"] show ?thesis by simp
qed

lemma length_tags_encoding_update:
  "length (tags_encoding (AList.update k v m)) \<le> length (tags_encoding m) + length k + length v + 2"
proof (induction m)
  case Nil
  show ?case by (simp add: tag_entry_def)
next
  case (Cons a m)
  then show ?case by (cases a) (auto simp: tag_entry_def)
qed

lemma update_fresh: "k \<notin> fst ` set m \<Longrightarrow> AList.update k v m = m @ [(k, v)]"
  by (induction m) auto

lemma length_tags_encoding_fresh:
  "k \<notin> fst ` set m \<Longrightarrow> v \<noteq> [] \<Longrightarrow>
   length (tags_encoding (AList.update k v m)) = length (tags_encoding m) + length k + length v + 2"
  by (simp add: update_fresh tag_entry_def)

lemma Tags_Set_allocated:
  "validTag key \<Longrightarrow>
   Tags_Set (Some m) key val =
     (if length (Tags_Bytes m) + length key + length (tagEncoder val) + 2 > 511
      then Inr (Inl (TagsTooLong key (tagEncoder val)))
      else Inr (Inr (AList.update key (tagEncoder val) m)))"
  by (simp add: Tags_Set_def Tags_Len_def Tags_String_def maxTagLength_def Let_def)

lemma Tags_Set_nil:
  "validTag key \<Longrightarrow>
   Tags_Set None key val =
     (if length key + length (tagEncoder val) + 2 > 511
      then Inr (Inl (TagsTooLong key (tagEncoder val)))
      else Inl NilMapAssignment)"
  by (simp add: Tags_Set_def Tags_Len_def Tags_String_def Tags_Bytes_def maxTagLength_def Let_def)

lemma Tags_Set_past_ceiling:
  assumes "validTag key" "Tags_Bytes m = tags_encoding m"
    "length (tags_encoding (AList.update key (tagEncoder val) m)) > 511"
  shows "Tags_Set (Some m) key val = Inr (Inl (TagsTooLong key (tagEncoder val)))"
proof -
  from length_tags_encoding_update [of key "tagEncoder val" m] assms(3)
  have "length (tags_encoding m) + length key + length (tagEncoder val) + 2 > 511" by simp
  with assms(1,2) show ?thesis by (simp add: Tags_Set_allocated)
qed

lemma Tags_Set_within_ceiling:
  assumes "validTag key" "Tags_Bytes m = tags_encoding m" "key \<notin> fst ` set m"
    "tagEncoder val \<noteq> []"
    "length (tags_encoding (AList.update key (tagEncoder val) m)) \<le> 511"
  shows "Tags_Set (Some m) key val = Inr (Inr (AList.update key (tagEncoder val) m))"
proof -
  from length_tags_encoding_fresh [OF assms(3,4)] assms(5)
  have "\<not> length (tags_encoding m) + length key + length (tagEncoder val) + 2 > 511" by simp
  with assms(1,2) show ?thesis by (simp add: Tags_Set_allocated)
qed

text \<open>
  C7, as amended. \<open>Tags.Set\<close> returns the invalid-name error exactly for a key that is
  empty or has a character outside \<open>[A-Za-z0-9/_.-]\<close>, on every map. For a valid key and
  an allocated map it returns the too-long error exactly when the number of octets that
  \<open>Tags.Bytes\<close> writes for the map (in the order of the range that \<open>Set\<close> makes), plus
  the lengths of the key and of the encoded value, plus 2, is past 511; otherwise it
  stores the encoded value under the key and changes no other key. On a nil map the
  same test is made with 0 octets, and the store panics. When \<open>Tags.Bytes\<close> leaves out
  no entry of the map, \<open>Set\<close> returns the error whenever the map with the pair stored
  would be encoded in more than 511 octets, and, for a key not yet in the map and a
  non-empty encoded value, stores the value whenever that encoding has at most 511
  octets. \<open>Tags.Bytes\<close> writes the entries in the order of its range, each whole, up to
  the first entry for which the octets written so far plus the lengths of name and value
  plus 2 are past 511; it writes nothing after that entry, never more than 511 octets,
  and raises no error. It leaves out no entry, in any order, when the lengths of all
  names and values plus 2 for each entry sum to at most 511.
\<close>

theorem Tags_Set_errors_and_Bytes_ceiling:
  "(validTag key \<longleftrightarrow> key \<noteq> [] \<and> set key \<subseteq> set tagCharset)
   \<and> (\<not> validTag key \<longrightarrow> Tags_Set t key val = Inr (Inl (InvalidTag key)))
   \<and> (validTag key \<longrightarrow>
        Tags_Set (Some m) key val =
          (if length (Tags_Bytes m) + length key + length (tagEncoder val) + 2 > 511
           then Inr (Inl (TagsTooLong key (tagEncoder val)))
           else Inr (Inr (AList.update key (tagEncoder val) m))))
   \<and> (validTag key \<longrightarrow>
        Tags_Set None key val =
          (if length key + length (tagEncoder val) + 2 > 511
           then Inr (Inl (TagsTooLong key (tagEncoder val)))
           else Inl NilMapAssignment))
   \<and> (Tags_Set t key val = Inr (Inr t') \<longrightarrow>
        (\<exists>m'. t = Some m' \<and> map_of t' = (map_of m')(key \<mapsto> tagEncoder val)))
   \<and> (validTag key \<and> Tags_Bytes m = tags_encoding m
        \<and> length (tags_encoding (AList.update key (tagEncoder val) m)) > 511
        \<longrightarrow> Tags_Set (Some m) key val = Inr (Inl (TagsTooLong key (tagEncoder val))))
   \<and> (validTag key \<and> Tags_Bytes m = tags_encoding m \<and> key \<notin> fst ` set m
        \<and> tagEncoder val \<noteq> []
        \<and> length (tags_encoding (AList.update key (tagEncoder val) m)) \<le> 511
        \<longrightarrow> Tags_Set (Some m) key val = Inr (Inr (AList.update key (tagEncoder val) m)))
   \<and> (tags_fit m \<longrightarrow> (\<forall>ord. mset ord = mset m \<longrightarrow> Tags_Bytes ord = tags_encoding ord))
   \<and> length (Tags_Bytes m) \<le> 511
   \<and> (\<exists>n\<le>length m. Tags_Bytes m = tags_encoding (take n m)
        \<and> (\<forall>i<n. length (tags_encoding (take i m)) + entry_cost (m ! i) \<le> 511)
        \<and> (n < length m \<longrightarrow> length (tags_encoding (take n m)) + entry_cost (m ! n) > 511))"
proof (intro conjI)
  show "validTag key \<longleftrightarrow> key \<noteq> [] \<and> set key \<subseteq> set tagCharset"
    by (rule validTag_charset)
  show "\<not> validTag key \<longrightarrow> Tags_Set t key val = Inr (Inl (InvalidTag key))"
    by (simp add: Tags_Set_def)
  show "validTag key \<longrightarrow>
        Tags_Set (Some m) key val =
          (if length (Tags_Bytes m) + length key + length (tagEncoder val) + 2 > 511
           then Inr (Inl (TagsTooLong key (tagEncoder val)))
           else Inr (Inr (AList.update key (tagEncoder val) m)))"
    using Tags_Set_allocated by blast
  show "validTag key \<longrightarrow>
        Tags_Set None key val =
          (if length key + length (tagEncoder val) + 2 > 511
           then Inr (Inl (TagsTooLong key (tagEncoder val)))
           else Inl NilMapAssignment)"
    using Tags_Set_nil by blast
  show "Tags_Set t key val = Inr (Inr t') \<longrightarrow>
        (\<exists>m'. t = Some m' \<and> map_of t' = (map_of m')(key \<mapsto> tagEncoder val))"
    by (auto simp: Tags_Set_def Let_def update_conv' split: if_splits option.splits)
  show "validTag key \<and> Tags_Bytes m = tags_encoding m
        \<and> length (tags_encoding (AList.update key (tagEncoder val) m)) > 511
        \<longrightarrow> Tags_Set (Some m) key val = Inr (Inl (TagsTooLong key (tagEncoder val)))"
    using Tags_Set_past_ceiling by blast
  show "validTag key \<and> Tags_Bytes m = tags_encoding m \<and> key \<notin> fst ` set m
        \<and> tagEncoder val \<noteq> []
        \<and> length (tags_encoding (AList.update key (tagEncoder val) m)) \<le> 511
        \<longrightarrow> Tags_Set (Some m) key val = Inr (Inr (AList.update key (tagEncoder val) m))"
    using Tags_Set_within_ceiling by blast
  show "tags_fit m \<longrightarrow> (\<forall>ord. mset ord = mset m \<longrightarrow> Tags_Bytes ord = tags_encoding ord)"
    using tags_fit_range Tags_Bytes_all by blast
  show "length (Tags_Bytes m) \<le> 511"
    using Tags_Bytes_bound [of m] by (simp add: maxTagLength_def)
  show "\<exists>n\<le>length m. Tags_Bytes m = tags_encoding (take n m)
        \<and> (\<forall>i<n. length (tags_encoding (take i m)) + entry_cost (m ! i) \<le> 511)
        \<and> (n < length m \<longrightarrow> length (tags_encoding (take n m)) + entry_cost (m ! n) > 511)"
    using Tags_Bytes_exact [of m] by (simp add: maxTagLength_def)
qed

theorem Tags_Set_errors_and_Bytes_ceiling_witness:
  "Tags_Set (Some []) ''a b'' ''v'' = Inr (Inl (InvalidTag ''a b''))
   \<and> Tags_Set (Some [(''x'', ''y'')]) ''a'' ''b c''
       = Inr (Inr [(''x'', ''y''), (''a'', [CHR ''b'', CHR 0x5C, CHR ''s'', CHR ''c''])])
   \<and> Tags_Set (Some []) (replicate 600 (CHR ''a'')) ''v''
       = Inr (Inl (TagsTooLong (replicate 600 (CHR ''a'')) ''v''))
   \<and> Tags_Set None ''a'' ''b'' = Inl NilMapAssignment
   \<and> Tags_Set (Some [(''k'', replicate 505 (CHR ''v''))]) ''z'' ''zz''
       = Inr (Inl (TagsTooLong ''z'' ''zz''))
   \<and> length (tags_encoding [(''k'', replicate 505 (CHR ''v'')), (''z'', ''zz'')]) = 513
   \<and> Tags_Bytes [(''a'', ''b''), (''x'', ''y'')] = ''a=b;x=y;''
   \<and> Tags_Bytes [(''a'', ''b''), (''x'', replicate 600 (CHR ''y'')), (''c'', ''d'')] = ''a=b;''
   \<and> length (Tags_Bytes [(''a'', ''b''), (''x'', replicate 600 (CHR ''y'')), (''c'', ''d'')]) \<le> 511
   \<and> (\<exists>n\<le>length [(''a'', ''b''), (''x'', replicate 600 (CHR ''y'')), (''c'', ''d'')]. Tags_Bytes [(''a'', ''b''), (''x'', replicate 600 (CHR ''y'')), (''c'', ''d'')] = tags_encoding (take n [(''a'', ''b''), (''x'', replicate 600 (CHR ''y'')), (''c'', ''d'')])
        \<and> (\<forall>i<n. length (tags_encoding (take i [(''a'', ''b''), (''x'', replicate 600 (CHR ''y'')), (''c'', ''d'')])) + entry_cost ([(''a'', ''b''), (''x'', replicate 600 (CHR ''y'')), (''c'', ''d'')] ! i) \<le> 511)
        \<and> (n < length [(''a'', ''b''), (''x'', replicate 600 (CHR ''y'')), (''c'', ''d'')] \<longrightarrow> length (tags_encoding (take n [(''a'', ''b''), (''x'', replicate 600 (CHR ''y'')), (''c'', ''d'')])) + entry_cost ([(''a'', ''b''), (''x'', replicate 600 (CHR ''y'')), (''c'', ''d'')] ! n) > 511))"
proof -
  let ?bc = "[CHR ''b'', CHR 0x5C, CHR ''s'', CHR ''c'']"
  let ?m1 = "[(''x'', ''y'')]"
  let ?m2 = "[(''k'', replicate 505 (CHR ''v''))]"
  let ?m3 = "[(''a'', ''b''), (''x'', replicate 600 (CHR ''y'')), (''c'', ''d'')]"
  note ev = validTag_def validTag_byte_def Tags_Bytes_def maxTagLength_def tagEncoder_Cons
    tagEncoder_Nil tag_entry_def char_defs tags_fit_def entry_cost_def
  have enc: "tagEncoder ''v'' = ''v''" "tagEncoder ''b c'' = ?bc" "tagEncoder ''zz'' = ''zz''"
    "tagEncoder ''b'' = ''b''"
    by (simp_all add: tagEncoder_Cons tagEncoder_Nil)
  have bad: "\<not> validTag ''a b''" by (simp add: ev)
  have ok: "validTag ''a''" "validTag ''z''" "validTag (replicate 600 (CHR ''a''))"
    by (simp_all add: ev list_all_iff)
  have 1: "Tags_Set (Some []) ''a b'' ''v'' = Inr (Inl (InvalidTag ''a b''))"
    using Tags_Set_errors_and_Bytes_ceiling [where key = "''a b''" and t = "Some []" and val = "''v''"]
      bad by blast
  have fresh: "''a'' \<notin> fst ` set ?m1" by simp
  have nonempty: "tagEncoder ''b c'' \<noteq> []" by (simp add: enc)
  have all1: "Tags_Bytes ?m1 = tags_encoding ?m1" by (simp add: ev)
  have small: "length (tags_encoding (AList.update ''a'' (tagEncoder ''b c'') ?m1)) \<le> 511"
    by (simp add: enc ev)
  from Tags_Set_errors_and_Bytes_ceiling [where key = "''a''" and m = ?m1 and val = "''b c''"]
    ok(1) fresh nonempty all1 small
  have "Tags_Set (Some ?m1) ''a'' ''b c'' = Inr (Inr (AList.update ''a'' (tagEncoder ''b c'') ?m1))"
    by blast
  then have 2: "Tags_Set (Some ?m1) ''a'' ''b c'' = Inr (Inr [(''x'', ''y''), (''a'', ?bc)])"
    by (simp add: enc)
  have over: "length (Tags_Bytes []) + length (replicate 600 (CHR ''a'')) + length (tagEncoder ''v'') + 2 > 511"
    by simp
  from Tags_Set_errors_and_Bytes_ceiling
      [where key = "replicate 600 (CHR ''a'')" and m = "[]" and val = "''v''"] ok(3)
  have "Tags_Set (Some []) (replicate 600 (CHR ''a'')) ''v'' =
          (if length (Tags_Bytes []) + length (replicate 600 (CHR ''a'')) + length (tagEncoder ''v'') + 2 > 511
           then Inr (Inl (TagsTooLong (replicate 600 (CHR ''a'')) (tagEncoder ''v'')))
           else Inr (Inr (AList.update (replicate 600 (CHR ''a'')) (tagEncoder ''v'') [])))"
    by blast
  with over have 3: "Tags_Set (Some []) (replicate 600 (CHR ''a'')) ''v''
       = Inr (Inl (TagsTooLong (replicate 600 (CHR ''a'')) ''v''))"
    by (simp only: if_True enc)
  from Tags_Set_errors_and_Bytes_ceiling [where key = "''a''" and val = "''b''"] ok(1)
  have "Tags_Set None ''a'' ''b'' =
          (if length ''a'' + length (tagEncoder ''b'') + 2 > 511
           then Inr (Inl (TagsTooLong ''a'' (tagEncoder ''b'')))
           else Inl NilMapAssignment)"
    by blast
  then have 4: "Tags_Set None ''a'' ''b'' = Inl NilMapAssignment"
    by (simp add: enc)
  have all2: "Tags_Bytes ?m2 = tags_encoding ?m2" by (simp add: ev)
  have big: "length (tags_encoding (AList.update ''z'' (tagEncoder ''zz'') ?m2)) > 511"
    by (simp add: enc ev)
  from Tags_Set_errors_and_Bytes_ceiling [where key = "''z''" and m = ?m2 and val = "''zz''"]
    ok(2) all2 big
  have "Tags_Set (Some ?m2) ''z'' ''zz'' = Inr (Inl (TagsTooLong ''z'' (tagEncoder ''zz'')))"
    by blast
  then have 5: "Tags_Set (Some ?m2) ''z'' ''zz'' = Inr (Inl (TagsTooLong ''z'' ''zz''))"
    by (simp add: enc)
  have 6: "length (tags_encoding [(''k'', replicate 505 (CHR ''v'')), (''z'', ''zz'')]) = 513"
    by (simp add: ev)
  have fit: "tags_fit [(''x'', ''y''), (''a'', ''b'')]" by (simp add: ev)
  have perm: "mset [(''a'', ''b''), (''x'', ''y'')] = mset [(''x'', ''y''), (''a'', ''b'')]"
    by simp
  from Tags_Set_errors_and_Bytes_ceiling [where m = "[(''x'', ''y''), (''a'', ''b'')]"] fit perm
  have "Tags_Bytes [(''a'', ''b''), (''x'', ''y'')] = tags_encoding [(''a'', ''b''), (''x'', ''y'')]"
    by blast
  then have 7: "Tags_Bytes [(''a'', ''b''), (''x'', ''y'')] = ''a=b;x=y;''"
    by (simp add: tag_entry_def char_defs)
  have 8: "Tags_Bytes ?m3 = ''a=b;''" by (simp add: ev)
  have 9: "length (Tags_Bytes ?m3) \<le> 511"
    using Tags_Set_errors_and_Bytes_ceiling [where m = ?m3] by blast
  from Tags_Set_errors_and_Bytes_ceiling [where m = ?m3]
  have 10: "\<exists>n\<le>length ?m3. Tags_Bytes ?m3 = tags_encoding (take n ?m3)
        \<and> (\<forall>i<n. length (tags_encoding (take i ?m3)) + entry_cost (?m3 ! i) \<le> 511)
        \<and> (n < length ?m3 \<longrightarrow> length (tags_encoding (take n ?m3)) + entry_cost (?m3 ! n) > 511)"
    by blast
  from 1 2 3 4 5 6 7 8 9 10 show ?thesis by blast
qed

text \<open>
  Three maps on which \<open>Set\<close> does not do what an exact test of the encoded section would:
  a shorter value for the key \<open>a\<close> is refused although the map would then take 4 octets;
  a map whose one entry is dropped by \<open>Tags.Bytes\<close> takes a new entry although its
  encoding has 607 octets; and a nil map panics.
\<close>

theorem Tags_Set_counterexample:
  "Tags_Set (Some [(''a'', replicate 505 (CHR ''x''))]) ''a'' ''y''
     = Inr (Inl (TagsTooLong ''a'' ''y''))
   \<and> length (tags_encoding (AList.update ''a'' ''y'' [(''a'', replicate 505 (CHR ''x''))])) = 4
   \<and> Tags_Set (Some [(''x'', replicate 600 (CHR ''y''))]) ''a'' ''b''
     = Inr (Inr [(''x'', replicate 600 (CHR ''y'')), (''a'', ''b'')])
   \<and> length (tags_encoding [(''x'', replicate 600 (CHR ''y'')), (''a'', ''b'')]) = 607
   \<and> Tags_Set None ''a'' ''b'' = Inl NilMapAssignment"
  by (simp add: Tags_Set_def validTag_def validTag_byte_def Tags_Len_def Tags_String_def
      Tags_Bytes_def maxTagLength_def tagEncoder_Cons tagEncoder_Nil tag_entry_def char_defs)

section \<open>Sources\<close>

lemma takeWhile_neq_append:
  "c \<notin> set xs \<Longrightarrow> takeWhile (\<lambda>x. x \<noteq> c) (xs @ ys) = xs @ takeWhile (\<lambda>x. x \<noteq> c) ys"
  by (induction xs) auto

lemma IndexByte_first: "c \<notin> set xs \<Longrightarrow> IndexByte (xs @ c # ys) c = int (length xs)"
  by (simp add: IndexByte_def takeWhile_neq_append)

lemma IndexByte_absent: "c \<notin> set xs \<Longrightarrow> IndexByte xs c = - 1"
  by (simp add: IndexByte_def)

lemma ParseSource_full:
  assumes "nick \<noteq> []" "prefixIdent \<notin> set nick" "prefixHost \<notin> set nick" "prefixHost \<notin> set user"
  shows "ParseSource (nick @ prefixIdent # user @ prefixHost # host)
         = Inr \<lparr>Name = nick, Ident = user, Host = host\<rparr>"
proof -
  let ?raw = "nick @ prefixIdent # user @ prefixHost # host"
  have ne: "prefixHost \<noteq> prefixIdent" by (simp add: prefixHost_def prefixIdent_def)
  have u: "IndexByte ?raw prefixIdent = int (length nick)"
    using assms by (simp add: IndexByte_first)
  have "prefixHost \<notin> set (nick @ prefixIdent # user)" using assms ne by auto
  then have "IndexByte ((nick @ prefixIdent # user) @ prefixHost # host) prefixHost
             = int (length (nick @ prefixIdent # user))"
    by (rule IndexByte_first)
  then have h: "IndexByte ?raw prefixHost = int (length nick) + 1 + int (length user)"
    by simp
  show ?thesis using assms(1)
    unfolding ParseSource_def Let_def u h
    by (simp add: slice_to_def slice_from_def slice_def bindE_def nat_add_distrib)
qed

lemma ParseSource_host_only:
  assumes "nick \<noteq> []" "prefixIdent \<notin> set nick" "prefixHost \<notin> set nick" "prefixIdent \<notin> set host"
  shows "ParseSource (nick @ prefixHost # host) = Inr \<lparr>Name = nick, Ident = [], Host = host\<rparr>"
proof -
  let ?raw = "nick @ prefixHost # host"
  have ne: "prefixHost \<noteq> prefixIdent" by (simp add: prefixHost_def prefixIdent_def)
  have u: "IndexByte ?raw prefixIdent = - 1"
    using assms ne by (simp add: IndexByte_absent)
  have h: "IndexByte ?raw prefixHost = int (length nick)"
    using assms by (simp add: IndexByte_first)
  show ?thesis using assms(1)
    unfolding ParseSource_def Let_def u h
    by (simp add: slice_to_def slice_from_def slice_def bindE_def nat_add_distrib)
qed

lemma ParseSource_ident_only:
  assumes "nick \<noteq> []" "prefixIdent \<notin> set nick" "prefixHost \<notin> set nick" "prefixHost \<notin> set user"
  shows "ParseSource (nick @ prefixIdent # user) = Inr \<lparr>Name = nick, Ident = user, Host = []\<rparr>"
proof -
  let ?raw = "nick @ prefixIdent # user"
  have ne: "prefixHost \<noteq> prefixIdent" by (simp add: prefixHost_def prefixIdent_def)
  have h: "IndexByte ?raw prefixHost = - 1"
    using assms ne by (simp add: IndexByte_absent)
  have u: "IndexByte ?raw prefixIdent = int (length nick)"
    using assms by (simp add: IndexByte_first)
  show ?thesis using assms(1)
    unfolding ParseSource_def Let_def u h
    by (simp add: slice_to_def slice_from_def slice_def bindE_def nat_add_distrib)
qed

lemma ParseSource_name_only:
  assumes "prefixIdent \<notin> set raw" "prefixHost \<notin> set raw"
  shows "ParseSource raw = Inr \<lparr>Name = raw, Ident = [], Host = []\<rparr>"
  using assms by (simp add: ParseSource_def IndexByte_absent)

text \<open>
  C9. \<open>ParseSource\<close> splits at the first \<open>!\<close> and the first \<open>@\<close>: for a non-empty nick
  without either separator, \<open>nick!user@host\<close> (no \<open>@\<close> in user) gives the three fields,
  \<open>nick@host\<close> (no \<open>!\<close> in host) gives name and host, \<open>nick!user\<close> (no \<open>@\<close> in user) gives
  name and ident, and a string with neither separator is the name alone.
  \<open>IsHostmask\<close> holds exactly when ident and host are both non-empty, \<open>IsServer\<close>
  exactly when both are empty.
\<close>

theorem ParseSource_grammar:
  "(nick \<noteq> [] \<and> CHR ''!'' \<notin> set nick \<and> CHR ''@'' \<notin> set nick \<and> CHR ''@'' \<notin> set user
      \<longrightarrow> ParseSource (nick @ ''!'' @ user @ ''@'' @ host)
            = Inr \<lparr>Name = nick, Ident = user, Host = host\<rparr>)
   \<and> (nick \<noteq> [] \<and> CHR ''!'' \<notin> set nick \<and> CHR ''@'' \<notin> set nick \<and> CHR ''!'' \<notin> set host
      \<longrightarrow> ParseSource (nick @ ''@'' @ host) = Inr \<lparr>Name = nick, Ident = [], Host = host\<rparr>)
   \<and> (nick \<noteq> [] \<and> CHR ''!'' \<notin> set nick \<and> CHR ''@'' \<notin> set nick \<and> CHR ''@'' \<notin> set user
      \<longrightarrow> ParseSource (nick @ ''!'' @ user) = Inr \<lparr>Name = nick, Ident = user, Host = []\<rparr>)
   \<and> (CHR ''!'' \<notin> set raw \<and> CHR ''@'' \<notin> set raw
      \<longrightarrow> ParseSource raw = Inr \<lparr>Name = raw, Ident = [], Host = []\<rparr>)
   \<and> (IsHostmask s \<longleftrightarrow> Ident s \<noteq> [] \<and> Host s \<noteq> [])
   \<and> (IsServer s \<longleftrightarrow> Ident s = [] \<and> Host s = [])"
proof -
  have i: "CHR ''!'' = prefixIdent" and h: "CHR ''@'' = prefixHost"
    by (simp_all add: prefixIdent_def prefixHost_def)
  show ?thesis
    unfolding i h
    using ParseSource_full [of nick user host] ParseSource_host_only [of nick host]
      ParseSource_ident_only [of nick user] ParseSource_name_only [of raw]
    by (simp add: IsHostmask_def IsServer_def)
qed

theorem ParseSource_grammar_witness:
  "ParseSource ''nick!user@host'' = Inr \<lparr>Name = ''nick'', Ident = ''user'', Host = ''host''\<rparr>
   \<and> ParseSource ''nick@host'' = Inr \<lparr>Name = ''nick'', Ident = [], Host = ''host''\<rparr>
   \<and> ParseSource ''nick!user'' = Inr \<lparr>Name = ''nick'', Ident = ''user'', Host = []\<rparr>
   \<and> ParseSource ''servername'' = Inr \<lparr>Name = ''servername'', Ident = [], Host = []\<rparr>
   \<and> IsHostmask \<lparr>Name = ''nick'', Ident = ''user'', Host = ''host''\<rparr>
   \<and> \<not> IsHostmask \<lparr>Name = ''nick'', Ident = [], Host = ''host''\<rparr>
   \<and> \<not> IsHostmask \<lparr>Name = ''nick'', Ident = ''user'', Host = []\<rparr>
   \<and> \<not> IsHostmask \<lparr>Name = ''servername'', Ident = [], Host = []\<rparr>
   \<and> IsServer \<lparr>Name = ''servername'', Ident = [], Host = []\<rparr>
   \<and> \<not> IsServer \<lparr>Name = ''nick'', Ident = ''user'', Host = ''host''\<rparr>
   \<and> \<not> IsServer \<lparr>Name = ''nick'', Ident = [], Host = ''host''\<rparr>
   \<and> \<not> IsServer \<lparr>Name = ''nick'', Ident = ''user'', Host = []\<rparr>"
  using ParseSource_grammar [of "''nick''" "''user''" "''host''" "''servername''"
          "\<lparr>Name = ''nick'', Ident = ''user'', Host = ''host''\<rparr>"]
        ParseSource_grammar [of "''nick''" "''user''" "''host''" "''servername''"
          "\<lparr>Name = ''nick'', Ident = [], Host = ''host''\<rparr>"]
        ParseSource_grammar [of "''nick''" "''user''" "''host''" "''servername''"
          "\<lparr>Name = ''nick'', Ident = ''user'', Host = []\<rparr>"]
        ParseSource_grammar [of "''nick''" "''user''" "''host''" "''servername''"
          "\<lparr>Name = ''servername'', Ident = [], Host = []\<rparr>"]
  by simp

section \<open>Length and serialization of events\<close>

lemma length_Join:
  "ps \<noteq> [] \<Longrightarrow> Suc (length (Join ps sep)) = length ps + sum_list (map length ps)"
  by (induction ps sep rule: Join.induct) auto

lemma Source_writeTo_length: "length (Source_writeTo s b) = length b + Source_Len s"
  by (simp add: Source_writeTo_def Source_Len_def Let_def)

lemma tags_encoding_nonempty: "t \<noteq> [] \<Longrightarrow> tags_encoding t \<noteq> []"
  by (cases t) (simp_all add: tag_entry_def)

lemma Tags_Len_fit:
  assumes "tags_fit t" "mset rng = mset t"
  shows "Tags_Len rng = length (tags_encoding t)"
proof -
  from tags_fit_range [OF assms(2)] assms(1) have "tags_fit rng" by blast
  then have "Tags_Bytes rng = tags_encoding rng" by (rule Tags_Bytes_all)
  with length_tags_encoding_range [OF assms(2)] show ?thesis
    by (simp add: Tags_Len_def Tags_String_def)
qed

lemma Tags_writeTo_fit:
  "tags_fit t \<Longrightarrow> t \<noteq> [] \<Longrightarrow> Tags_writeTo t [] = tags_encoding t @ [CHR 0x20]"
  by (simp add: Tags_writeTo_def Tags_Bytes_all tags_encoding_nonempty Let_def)

lemma Event_Len_buffer:
  assumes "range_order e rng" "tags_nil_or_fit e"
  shows "Event_Len rng e = length (Event_buffer e)"
proof -
  have p: "length (Params e) > 0 \<Longrightarrow>
        Suc (length (Join (Params e) eventSpace)) = length (Params e) + sum_list (map length (Params e))"
    using length_Join by auto
  have t: "Tags_Len rng + 1 = length (Tags_writeTo t [])" if "Tags e = Some t" for t
  proof -
    from that assms have "mset rng = mset t" "tags_fit t" "t \<noteq> []"
      by (simp_all add: range_order_def tags_nil_or_fit_def)
    with Tags_Len_fit [of t rng] Tags_writeTo_fit [of t] show ?thesis by simp
  qed
  show ?thesis
  proof (cases "Tags e")
    case None
    with p show ?thesis
      by (auto simp: Event_Len_def Event_buffer_def Let_def Source_writeTo_length
          split: option.splits)
  next
    case (Some t)
    with p t [OF Some] show ?thesis
      by (auto simp: Event_Len_def Event_buffer_def Let_def Source_writeTo_length
          split: option.splits)
  qed
qed

lemma stripCRLF_crlf_free: "crlf_free s \<Longrightarrow> stripCRLF s = s"
  by (induction s) (auto simp: crlf_free_def cutCRFunc_def)

lemma crlf_free_append [simp]: "crlf_free (a @ b) \<longleftrightarrow> crlf_free a \<and> crlf_free b"
  by (simp add: crlf_free_def)

lemma crlf_free_Cons [simp]: "crlf_free (c # s) \<longleftrightarrow> \<not> cutCRFunc c \<and> crlf_free s"
  by (simp add: crlf_free_def)

lemma crlf_free_Nil [simp]: "crlf_free []"
  by (simp add: crlf_free_def)

lemma crlf_free_Join:
  "list_all crlf_free ps \<Longrightarrow> \<not> cutCRFunc sep \<Longrightarrow> crlf_free (Join ps sep)"
  by (induction ps sep rule: Join.induct) auto

lemma crlf_free_Tags_Bytes_loop:
  "list_all (\<lambda>(k, v). crlf_free k \<and> crlf_free v) t \<Longrightarrow> crlf_free buffer \<Longrightarrow>
   crlf_free (Tags_Bytes_loop mx current t buffer)"
  by (induction mx current t buffer rule: Tags_Bytes_loop.induct)
     (auto simp: cutCRFunc_def prefixTagValue_def tagSeparator_def)

lemma crlf_free_Tags_writeTo:
  "list_all (\<lambda>(k, v). crlf_free k \<and> crlf_free v) t \<Longrightarrow> crlf_free (Tags_writeTo t [])"
  by (simp add: Tags_writeTo_def Tags_Bytes_def Let_def crlf_free_Tags_Bytes_loop cutCRFunc_def)

lemma crlf_free_Event_buffer:
  assumes "Event_crlf_free e"
  shows "crlf_free (Event_buffer e)"
proof -
  have sp: "\<not> cutCRFunc eventSpace" "\<not> cutCRFunc messagePrefix" "\<not> cutCRFunc prefixIdent"
    "\<not> cutCRFunc prefixHost"
    by (simp_all add: cutCRFunc_def char_defs)
  from assms have "crlf_free (Join (Params e) eventSpace)"
    by (simp add: Event_crlf_free_def crlf_free_Join sp)
  with assms sp show ?thesis
    by (auto simp: Event_crlf_free_def Event_buffer_def Let_def Source_writeTo_def
        crlf_free_Tags_writeTo split: option.splits)
qed

text \<open>
  C10, as amended. For every event whose tags are nil, or of which there is at least one
  and the lengths of all names and values plus 2 for each entry sum to at most 511,
  \<open>Event.Len\<close> is the number of octets \<open>Event.Bytes\<close> composes before it cuts the line and
  strips CR and LF, in whatever orders the two range over the tag map; so when
  \<open>Event.Len\<close> is at most 510 and no field holds a CR or an LF, \<open>Event.Bytes\<close> returns, and
  returns exactly \<open>Event.Len\<close> octets.
\<close>

theorem Event_Len_is_length_of_Bytes:
  assumes "range_order e rng" and "tags_nil_or_fit e"
  shows "Event_Len rng e = length (Event_buffer e)
       \<and> (Event_Len rng e \<le> maxLength \<and> Event_crlf_free e \<longrightarrow> Len_agrees_with_Bytes rng e)"
proof
  from assms show len: "Event_Len rng e = length (Event_buffer e)"
    by (rule Event_Len_buffer)
  show "Event_Len rng e \<le> maxLength \<and> Event_crlf_free e \<longrightarrow> Len_agrees_with_Bytes rng e"
  proof
    assume h: "Event_Len rng e \<le> maxLength \<and> Event_crlf_free e"
    then have "stripCRLF (Event_buffer e) = Event_buffer e"
      by (simp add: crlf_free_Event_buffer stripCRLF_crlf_free)
    with len h show "Len_agrees_with_Bytes rng e"
      by (simp add: Len_agrees_with_Bytes_def Event_Bytes_def Let_def bindE_def)
  qed
qed

theorem Event_Len_is_length_of_Bytes_witness:
  "range_order
     \<lparr>Source = Some \<lparr>Name = ''n'', Ident = ''u'', Host = ''h''\<rparr>,
      Tags = Some [(''a'', ''b''), (''c'', ''d'')], Command = ''CMD'', Params = [''p'', ''q''],
      Trailing = [], EmptyTrailing = True, Sensitive = False\<rparr> [(''c'', ''d''), (''a'', ''b'')]
   \<and> tags_nil_or_fit
     \<lparr>Source = Some \<lparr>Name = ''n'', Ident = ''u'', Host = ''h''\<rparr>,
      Tags = Some [(''a'', ''b''), (''c'', ''d'')], Command = ''CMD'', Params = [''p'', ''q''],
      Trailing = [], EmptyTrailing = True, Sensitive = False\<rparr>
   \<and> Event_Len [(''c'', ''d''), (''a'', ''b'')]
     \<lparr>Source = Some \<lparr>Name = ''n'', Ident = ''u'', Host = ''h''\<rparr>,
      Tags = Some [(''a'', ''b''), (''c'', ''d'')], Command = ''CMD'', Params = [''p'', ''q''],
      Trailing = [], EmptyTrailing = True, Sensitive = False\<rparr> = 25
   \<and> Event_Bytes
     \<lparr>Source = Some \<lparr>Name = ''n'', Ident = ''u'', Host = ''h''\<rparr>,
      Tags = Some [(''a'', ''b''), (''c'', ''d'')], Command = ''CMD'', Params = [''p'', ''q''],
      Trailing = [], EmptyTrailing = True, Sensitive = False\<rparr> = Inr ''a=b;c=d; :n!u@h CMD p q :''
   \<and> Len_agrees_with_Bytes [(''c'', ''d''), (''a'', ''b'')]
     \<lparr>Source = Some \<lparr>Name = ''n'', Ident = ''u'', Host = ''h''\<rparr>,
      Tags = Some [(''a'', ''b''), (''c'', ''d'')], Command = ''CMD'', Params = [''p'', ''q''],
      Trailing = [], EmptyTrailing = True, Sensitive = False\<rparr>"
proof -
  let ?e = "\<lparr>Source = Some \<lparr>Name = ''n'', Ident = ''u'', Host = ''h''\<rparr>,
      Tags = Some [(''a'', ''b''), (''c'', ''d'')], Command = ''CMD'', Params = [''p'', ''q''],
      Trailing = [], EmptyTrailing = True, Sensitive = False\<rparr>"
  let ?rng = "[(''c'', ''d''), (''a'', ''b'')]"
  note ev = Tags_Bytes_def maxTagLength_def tags_fit_def entry_cost_def
  have r: "range_order ?e ?rng"
    by (simp add: range_order_def)
  have t: "tags_nil_or_fit ?e"
    by (simp add: tags_nil_or_fit_def ev)
  have l: "Event_Len ?rng ?e = 25"
    by (simp add: Event_Len_def Tags_Len_def Tags_String_def Source_Len_def ev char_defs)
  then have l': "Event_Len ?rng ?e \<le> maxLength" by (simp add: maxLength_def)
  have c: "Event_crlf_free ?e"
    by (simp add: Event_crlf_free_def cutCRFunc_def)
  have b: "Event_Bytes ?e = Inr ''a=b;c=d; :n!u@h CMD p q :''"
    by (simp add: Event_Bytes_defs bindE_def char_defs)
  from Event_Len_is_length_of_Bytes [OF r t] l' c have "Len_agrees_with_Bytes ?rng ?e"
    by blast
  with r t l b show ?thesis by blast
qed

theorem Event_Len_counterexample:
  "\<not> Len_agrees_with_Bytes [] (new_Event\<lparr>Command := replicate 511 (CHR ''A'')\<rparr>)"
proof -
  have s: "stripCRLF (replicate n (CHR ''A'')) = replicate n (CHR ''A'')" for n
    by (induction n) auto
  have "Event_Bytes (new_Event\<lparr>Command := replicate 511 (CHR ''A'')\<rparr>)
        = Inr (replicate 510 (CHR ''A''))"
    by (simp add: Event_Bytes_def Event_buffer_def new_Event_def maxLength_def Truncate_def
        bindE_def s)
  moreover have "Event_Len [] (new_Event\<lparr>Command := replicate 511 (CHR ''A'')\<rparr>) = 511"
    by (simp add: Event_Len_def new_Event_def)
  ultimately show ?thesis
    by (simp add: Len_agrees_with_Bytes_def)
qed

text \<open>
  Outside these bounds the two ranges matter: of the two tags \<open>a=b\<close> and \<open>x\<close> with a value
  of 600 octets, \<open>Tags.Bytes\<close> writes \<open>a=b;\<close> when it meets \<open>a\<close> first and nothing when it
  meets \<open>x\<close> first, so \<open>Event.Len\<close> can be 5 for an event that \<open>Event.Bytes\<close> writes in 9
  octets.
\<close>

lemma Event_Len_depends_on_range:
  "range_order (new_Event\<lparr>Tags := Some [(''a'', ''b''), (''x'', replicate 600 (CHR ''y''))],
                          Command := ''PING''\<rparr>)
     [(''x'', replicate 600 (CHR ''y'')), (''a'', ''b'')]
   \<and> Event_Len [(''x'', replicate 600 (CHR ''y'')), (''a'', ''b'')]
       (new_Event\<lparr>Tags := Some [(''a'', ''b''), (''x'', replicate 600 (CHR ''y''))],
                  Command := ''PING''\<rparr>) = 5
   \<and> Event_Bytes (new_Event\<lparr>Tags := Some [(''a'', ''b''), (''x'', replicate 600 (CHR ''y''))],
                              Command := ''PING''\<rparr>) = Inr ''a=b; PING''"
  by (simp add: range_order_def Event_Len_def Tags_Len_def Tags_String_def Event_Bytes_defs
      bindE_def char_defs)

section \<open>Bounds of the accesses made while parsing\<close>

text \<open>
  \<open>strings.IndexByte\<close> answers an index inside the string or \<open>-1\<close>; the slices and the
  octet reads below are inside their bounds whenever their indices are.
\<close>


lemma IndexByte_range: "- 1 \<le> IndexByte s c \<and> IndexByte s c < int (length s)"
proof (cases "c \<in> set s")
  case True
  then have "length (takeWhile (\<lambda>x. x \<noteq> c) s) < length s"
    by (induction s) auto
  with True show ?thesis by (simp add: IndexByte_def)
next
  case False
  then show ?thesis by (simp add: IndexByte_def)
qed

lemma IndexByte_lt: "IndexByte s c < int (length s)"
  using IndexByte_range by blast

lemma IndexByte_ge: "- 1 \<le> IndexByte s c"
  using IndexByte_range by blast

lemma IndexByte_neg_iff: "IndexByte s c < 0 \<longleftrightarrow> c \<notin> set s"
  by (simp add: IndexByte_def)

lemma slice_ok: "0 \<le> a \<Longrightarrow> a \<le> b \<Longrightarrow> b \<le> int (length s) \<Longrightarrow> slice s a b = Inr (take (nat b - nat a) (drop (nat a) s))"
  by (simp add: slice_def)

lemma slice_from_ok: "0 \<le> a \<Longrightarrow> a \<le> int (length s) \<Longrightarrow> slice_from s a = Inr (drop (nat a) s)"
  by (simp add: slice_from_def slice_def)

lemma slice_to_ok: "0 \<le> b \<Longrightarrow> b \<le> int (length s) \<Longrightarrow> slice_to s b = Inr (take (nat b) s)"
  by (simp add: slice_to_def slice_def)

lemma byte_at_ok: "0 \<le> i \<Longrightarrow> i < int (length s) \<Longrightarrow> byte_at s i = Inr (s ! nat i)"
  by (simp add: byte_at_def)

lemma bindE_Inr [simp]: "bindE (Inr x) f = f x"
  by (simp add: bindE_def)


text \<open>
  Neither \<open>ParseTags\<close> nor \<open>ParseSource\<close> can panic, and the part of \<open>ParseEvent\<close> that
  reads the command, the parameters and the trailing parameter cannot either, provided
  the index it starts from lies inside the line.
\<close>

lemma ParseTags_step_total: "\<exists>t'. ParseTags_step t part = Inr t'"
proof -
  let ?h = "IndexByte part prefixTagValue"
  have "?h < int (length part)" by (rule IndexByte_lt)
  then show ?thesis
    by (auto simp: ParseTags_step_def Let_def slice_to_ok slice_from_ok)
qed

lemma ParseTags_loop_total: "\<exists>t'. ParseTags_loop t ps = Inr t'"
proof (induction ps arbitrary: t)
  case Nil
  show ?case by simp
next
  case (Cons p ps)
  obtain t1 where "ParseTags_step t p = Inr t1" using ParseTags_step_total by blast
  with Cons show ?case by simp
qed

lemma ParseTags_total: "\<exists>t. ParseTags raw = Inr t"
  by (simp add: ParseTags_def ParseTags_loop_total)

lemma ParseSource_total: "\<exists>s. ParseSource raw = Inr s"
proof -
  have "IndexByte raw prefixIdent < int (length raw)" "IndexByte raw prefixHost < int (length raw)"
    by (rule IndexByte_lt)+
  then show ?thesis
    by (auto simp: ParseSource_def Let_def slice_to_ok slice_from_ok slice_ok)
qed

lemma ParseEvent_params_total:
  assumes "0 < j" "j \<le> int (length raw)"
  shows "\<exists>e'. ParseEvent_params e raw j = Inr (Some e')"
proof -
  let ?rest = "drop (nat j) raw"
  let ?i = "IndexByte ?rest messagePrefix"
  have r: "slice_from raw j = Inr ?rest" using assms by (simp add: slice_from_ok)
  have lt: "?i < int (length raw) - j" using IndexByte_lt [of ?rest messagePrefix] assms by simp
  show ?thesis
  proof (cases "?i < 0")
    case True
    then show ?thesis by (simp add: ParseEvent_params_def r Let_def)
  next
    case False
    then have b: "byte_at raw (j + ?i - 1) = Inr (raw ! nat (j + ?i - 1))"
      using assms lt by (simp add: byte_at_ok)
    from False assms lt have t: "slice_from raw (?i + j + 1) = Inr (drop (nat (?i + j + 1)) raw)"
      by (simp add: slice_from_ok)
    from False assms lt have p: "?i + j > j \<Longrightarrow> slice raw j (?i + j - 1) = Inr (take (nat (?i + j - 1) - nat j) ?rest)"
      by (simp add: slice_ok)
    show ?thesis using False
      by (auto simp: ParseEvent_params_def r Let_def b t p)
  qed
qed

lemma ParseEvent_command_total:
  assumes "0 \<le> i" "i \<le> int (length raw)"
  shows "\<exists>e'. ParseEvent_command up e raw i = Inr (Some e')"
proof -
  let ?r = "drop (nat i) raw"
  let ?j = "i + IndexByte ?r eventSpace"
  have r: "slice_from raw i = Inr ?r" using assms by (simp add: slice_from_ok)
  have lt: "?j < int (length raw)" using IndexByte_lt [of ?r eventSpace] assms by simp
  show ?thesis
  proof (cases "?j < i")
    case True
    then show ?thesis by (simp add: ParseEvent_command_def r Let_def)
  next
    case False
    with assms lt have c: "slice raw i ?j = Inr (take (nat ?j - nat i) ?r)"
      by (simp add: slice_ok)
    from False assms lt have "0 < ?j + 1" "?j + 1 \<le> int (length raw)" by simp_all
    from ParseEvent_params_total [OF this]
    show ?thesis using False by (simp add: ParseEvent_command_def r Let_def c)
  qed
qed

lemma ParseEvent_command_stale:
  assumes "int (length raw) < i"
  shows "ParseEvent_command up e raw i = Inl SliceOutOfRange"
  using assms by (simp add: ParseEvent_command_def slice_from_def slice_def bindE_def)

lemma ParseEvent_prefix_empty: "ParseEvent_prefix up e [] i = Inl IndexOutOfRange"
  by (simp add: ParseEvent_prefix_def byte_at_def bindE_def)

lemma ParseEvent_prefix_no_source:
  "raw \<noteq> [] \<Longrightarrow> hd raw \<noteq> messagePrefix \<Longrightarrow>
   ParseEvent_prefix up e raw i = ParseEvent_command up e raw i"
  by (cases raw) (simp_all add: ParseEvent_prefix_def byte_at_def)

lemma ParseEvent_prefix_source:
  assumes "raw \<noteq> []" "hd raw = messagePrefix"
  shows "if IndexByte raw eventSpace < 2 then ParseEvent_prefix up e raw i = Inr None
         else \<exists>e'. ParseEvent_prefix up e raw i = Inr (Some e')"
proof -
  let ?i = "IndexByte raw eventSpace"
  from assms have b: "byte_at raw 0 = Inr messagePrefix"
    by (cases raw) (simp_all add: byte_at_def)
  show ?thesis
  proof (cases "?i < 2")
    case True
    then show ?thesis by (simp add: ParseEvent_prefix_def b Let_def)
  next
    case False
    have lt: "?i < int (length raw)" by (rule IndexByte_lt)
    with False have s: "slice raw 1 ?i = Inr (take (nat ?i - Suc 0) (drop (Suc 0) raw))"
      by (simp add: slice_ok)
    obtain src where src: "ParseSource (take (nat ?i - Suc 0) (drop (Suc 0) raw)) = Inr src"
      using ParseSource_total by blast
    from False lt have "0 \<le> ?i + 1" "?i + 1 \<le> int (length raw)" by simp_all
    from ParseEvent_command_total [OF this]
    show ?thesis using False by (simp add: ParseEvent_prefix_def b Let_def s src)
  qed
qed


text \<open>
  A line that does not start with a tag section is always parsed without a panic, and
  the result is nil exactly when the trimmed line has fewer than 2 octets or starts with
  \<open>:\<close> and has no space at index 2 or later. With a tag section the parse panics
  exactly when nothing follows the space that ends the tags, or when what follows does
  not start with \<open>:\<close> and is shorter than the index of that space.
\<close>

lemma ParseEvent_untagged:
  assumes "length (TrimFunc raw0 cutCRFunc) < 2 \<or> hd (TrimFunc raw0 cutCRFunc) \<noteq> prefixTag"
  shows "(\<exists>r. ParseEvent up raw0 = Inr r)
    \<and> (ParseEvent up raw0 = Inr None \<longleftrightarrow>
         length (TrimFunc raw0 cutCRFunc) < 2
         \<or> (hd (TrimFunc raw0 cutCRFunc) = messagePrefix
            \<and> IndexByte (TrimFunc raw0 cutCRFunc) eventSpace < 2))"
proof -
  let ?raw = "TrimFunc raw0 cutCRFunc"
  show ?thesis
  proof (cases "length ?raw < 2")
    case True
    then show ?thesis by (simp add: ParseEvent_def Let_def)
  next
    case False
    then have ne: "?raw \<noteq> []" by auto
    from False assms have untagged: "hd ?raw \<noteq> prefixTag" by simp
    from ne have b: "byte_at ?raw 0 = Inr (hd ?raw)"
      by (cases ?raw) (simp_all add: byte_at_def)
    from False untagged have p: "ParseEvent up raw0 = ParseEvent_prefix up new_Event ?raw 0"
      by (simp add: ParseEvent_def Let_def b)
    show ?thesis
    proof (cases "hd ?raw = messagePrefix")
      case True
      from ParseEvent_prefix_source [OF ne True, of up new_Event 0] False True p
      show ?thesis by (auto split: if_splits)
    next
      case nosrc: False
      have "\<exists>e'. ParseEvent_command up new_Event ?raw 0 = Inr (Some e')"
        by (rule ParseEvent_command_total) simp_all
      with ParseEvent_prefix_no_source [OF ne nosrc, of up new_Event 0] False nosrc p
      show ?thesis by auto
    qed
  qed
qed

lemma ParseEvent_panic_iff:
  "(\<exists>p. ParseEvent up raw0 = Inl p) \<longleftrightarrow>
     (let raw = TrimFunc raw0 cutCRFunc;
          i = IndexByte raw eventSpace;
          rest = drop (nat (i + 1)) raw
      in 2 \<le> length raw \<and> hd raw = prefixTag \<and> 2 \<le> i
         \<and> (rest = [] \<or> (hd rest \<noteq> messagePrefix \<and> int (length rest) < i)))"
proof -
  let ?raw = "TrimFunc raw0 cutCRFunc"
  let ?i = "IndexByte ?raw eventSpace"
  let ?rest = "drop (nat (?i + 1)) ?raw"
  show ?thesis
  proof (cases "2 \<le> length ?raw \<and> hd ?raw = prefixTag \<and> 2 \<le> ?i")
    case False
    show ?thesis
    proof (cases "hd ?raw = prefixTag")
      case nt: False
      with ParseEvent_untagged [of raw0 up] show ?thesis by (auto simp: Let_def)
    next
      case True
      with False have "length ?raw < 2 \<or> ?i < 2" by auto
      then have "ParseEvent up raw0 = Inr None"
      proof
        assume "length ?raw < 2" then show ?thesis by (simp add: ParseEvent_def Let_def)
      next
        assume i: "?i < 2"
        show ?thesis
        proof (cases "length ?raw < 2")
          case True then show ?thesis by (simp add: ParseEvent_def Let_def)
        next
          case False
          then have "?raw \<noteq> []" by auto
          with True have "byte_at ?raw 0 = Inr prefixTag"
            by (cases ?raw) (simp_all add: byte_at_def)
          with i False show ?thesis by (simp add: ParseEvent_def Let_def)
        qed
      qed
      with False show ?thesis by (auto simp: Let_def)
    qed
  next
    case True
    then have ne: "?raw \<noteq> []" by auto
    with True have b: "byte_at ?raw 0 = Inr prefixTag"
      by (cases ?raw) (simp_all add: byte_at_def)
    have lt: "?i < int (length ?raw)" by (rule IndexByte_lt)
    with True have s: "slice ?raw 1 ?i = Inr (take (nat ?i - Suc 0) (drop (Suc 0) ?raw))"
      by (simp add: slice_ok)
    obtain t where t: "ParseTags (take (nat ?i - Suc 0) (drop (Suc 0) ?raw)) = Inr t"
      using ParseTags_total by blast
    from True lt have r: "slice_from ?raw (?i + 1) = Inr ?rest"
      by (simp add: slice_from_ok)
    from True have p: "ParseEvent up raw0 = ParseEvent_prefix up (new_Event\<lparr>Tags := Some t\<rparr>) ?rest ?i"
      by (simp add: ParseEvent_def Let_def b s t r)
    show ?thesis
    proof (cases "?rest = []")
      case e: True
      with p True show ?thesis by (simp add: Let_def ParseEvent_prefix_empty)
    next
      case ne': False
      show ?thesis
      proof (cases "hd ?rest = messagePrefix")
        case src: True
        from ParseEvent_prefix_source [OF ne' src, of up "new_Event\<lparr>Tags := Some t\<rparr>" ?i] p ne' src True
        show ?thesis by (auto simp: Let_def split: if_splits)
      next
        case nosrc: False
        note c = ParseEvent_prefix_no_source [OF ne' nosrc, of up "new_Event\<lparr>Tags := Some t\<rparr>" ?i]
        show ?thesis
        proof (cases "int (length ?rest) < ?i")
          case stale: True
          from ParseEvent_command_stale [OF stale, of up "new_Event\<lparr>Tags := Some t\<rparr>"] c p True nosrc stale
          show ?thesis by (auto simp: Let_def)
        next
          case ok: False
          from True have "0 \<le> ?i" by simp
          moreover from ok have "?i \<le> int (length ?rest)" by simp
          ultimately have "\<exists>e'. ParseEvent_command up (new_Event\<lparr>Tags := Some t\<rparr>) ?rest ?i = Inr (Some e')"
            by (rule ParseEvent_command_total)
          with c p True nosrc ok ne' show ?thesis by (auto simp: Let_def)
        qed
      qed
    qed
  qed
qed

text \<open>
  The nil results, for every line: the trimmed line is shorter than 2 octets, or a tag
  section or a prefix section is opened and its space is missing or at an index below 2.
\<close>


lemma ParseEvent_tagged:
  assumes "2 \<le> length (TrimFunc raw0 cutCRFunc)" "hd (TrimFunc raw0 cutCRFunc) = prefixTag"
    "2 \<le> IndexByte (TrimFunc raw0 cutCRFunc) eventSpace"
  shows "\<exists>t. ParseEvent up raw0 =
           ParseEvent_prefix up (new_Event\<lparr>Tags := Some t\<rparr>)
             (drop (nat (IndexByte (TrimFunc raw0 cutCRFunc) eventSpace + 1)) (TrimFunc raw0 cutCRFunc))
             (IndexByte (TrimFunc raw0 cutCRFunc) eventSpace)"
proof -
  let ?raw = "TrimFunc raw0 cutCRFunc"
  let ?i = "IndexByte ?raw eventSpace"
  from assms have ne: "?raw \<noteq> []" by auto
  with assms have b: "byte_at ?raw 0 = Inr prefixTag"
    by (cases ?raw) (simp_all add: byte_at_def)
  have lt: "?i < int (length ?raw)" by (rule IndexByte_lt)
  with assms have s: "slice ?raw 1 ?i = Inr (take (nat ?i - Suc 0) (drop (Suc 0) ?raw))"
    by (simp add: slice_ok)
  obtain t where t: "ParseTags (take (nat ?i - Suc 0) (drop (Suc 0) ?raw)) = Inr t"
    using ParseTags_total by blast
  from assms lt have r: "slice_from ?raw (?i + 1) = Inr (drop (nat (?i + 1)) ?raw)"
    by (simp add: slice_from_ok)
  from assms have "ParseEvent up raw0 =
      ParseEvent_prefix up (new_Event\<lparr>Tags := Some t\<rparr>) (drop (nat (?i + 1)) ?raw) ?i"
    by (simp add: ParseEvent_def Let_def b s t r)
  then show ?thesis by blast
qed

lemma ParseEvent_tags_without_space:
  assumes "2 \<le> length (TrimFunc raw0 cutCRFunc)" "hd (TrimFunc raw0 cutCRFunc) = prefixTag"
    "IndexByte (TrimFunc raw0 cutCRFunc) eventSpace < 2"
  shows "ParseEvent up raw0 = Inr None"
proof -
  let ?raw = "TrimFunc raw0 cutCRFunc"
  from assms have "?raw \<noteq> []" by auto
  with assms have "byte_at ?raw 0 = Inr prefixTag"
    by (cases ?raw) (simp_all add: byte_at_def)
  with assms show ?thesis by (simp add: ParseEvent_def Let_def)
qed

lemma ParseEvent_nil_iff:
  "ParseEvent up raw0 = Inr None \<longleftrightarrow>
     (let raw = TrimFunc raw0 cutCRFunc;
          i = IndexByte raw eventSpace;
          rest = drop (nat (i + 1)) raw
      in length raw < 2
         \<or> (hd raw = prefixTag \<and> i < 2)
         \<or> (hd raw = prefixTag \<and> 2 \<le> i \<and> rest \<noteq> [] \<and> hd rest = messagePrefix
              \<and> IndexByte rest eventSpace < 2)
         \<or> (hd raw = messagePrefix \<and> i < 2))"
proof -
  let ?raw = "TrimFunc raw0 cutCRFunc"
  let ?i = "IndexByte ?raw eventSpace"
  let ?rest = "drop (nat (?i + 1)) ?raw"
  have ne: "prefixTag \<noteq> messagePrefix" by (simp add: char_defs)
  show ?thesis
  proof (cases "length ?raw < 2")
    case True
    then show ?thesis by (simp add: ParseEvent_def Let_def)
  next
    case long: False
    show ?thesis
    proof (cases "hd ?raw = prefixTag")
      case False
      with ParseEvent_untagged [of raw0 up] long ne show ?thesis by (auto simp: Let_def)
    next
      case tagged: True
      show ?thesis
      proof (cases "?i < 2")
        case True
        with ParseEvent_tags_without_space [of raw0 up] long tagged show ?thesis
          by (simp add: Let_def)
      next
        case False
        with long tagged obtain t where
          p: "ParseEvent up raw0 = ParseEvent_prefix up (new_Event\<lparr>Tags := Some t\<rparr>) ?rest ?i"
          using ParseEvent_tagged [of raw0 up] by auto
        show ?thesis
        proof (cases "?rest = []")
          case True
          with p long tagged False ne show ?thesis
            by (simp add: Let_def ParseEvent_prefix_empty)
        next
          case rest: False
          show ?thesis
          proof (cases "hd ?rest = messagePrefix")
            case True
            from ParseEvent_prefix_source [OF rest True, of up "new_Event\<lparr>Tags := Some t\<rparr>" ?i]
              p long tagged False ne rest True
            show ?thesis by (auto simp: Let_def split: if_splits)
          next
            case nosrc: False
            note c = ParseEvent_prefix_no_source [OF rest nosrc, of up "new_Event\<lparr>Tags := Some t\<rparr>" ?i]
            have "ParseEvent_command up (new_Event\<lparr>Tags := Some t\<rparr>) ?rest ?i \<noteq> Inr None"
            proof (cases "int (length ?rest) < ?i")
              case True
              from ParseEvent_command_stale [OF True, of up "new_Event\<lparr>Tags := Some t\<rparr>"]
              show ?thesis by simp
            next
              case ok: False
              from False have "0 \<le> ?i" by simp
              moreover from ok have "?i \<le> int (length ?rest)" by simp
              ultimately have "\<exists>e'. ParseEvent_command up (new_Event\<lparr>Tags := Some t\<rparr>) ?rest ?i = Inr (Some e')"
                by (rule ParseEvent_command_total)
              then show ?thesis by auto
            qed
            with c p long tagged False ne rest nosrc show ?thesis by (auto simp: Let_def)
          qed
        qed
      qed
    qed
  qed
qed

section \<open>What is parsed from a line\<close>

text \<open>
  The text after the command is examined at its first \<open>:\<close> only. Without a \<open>:\<close> it is
  split on spaces; when the first \<open>:\<close> is the first octet of that text or follows a
  space, the text before it is split on spaces and the text after it is the trailing
  parameter; when the first \<open>:\<close> follows another octet, the whole text is split on
  spaces, whatever comes later.
\<close>


lemma Split_no_sep: "sep \<notin> set s \<Longrightarrow> Split s sep = [s]"
  by (induction s) auto

lemma Split_append_sep: "sep \<notin> set a \<Longrightarrow> Split (a @ sep # b) sep = a # Split b sep"
  by (induction a) auto

lemma Split_Join: "ps \<noteq> [] \<Longrightarrow> \<forall>p\<in>set ps. sep \<notin> set p \<Longrightarrow> Split (Join ps sep) sep = ps"
  by (induction ps sep rule: Join.induct) (auto simp: Split_no_sep Split_append_sep)

lemma set_Join: "set (Join ps sep) \<subseteq> \<Union> (set ` set ps) \<union> {sep}"
  by (induction ps sep rule: Join.induct) auto

lemma ParseEvent_params_no_colon:
  assumes "0 < j" "j \<le> int (length raw)" "messagePrefix \<notin> set (drop (nat j) raw)"
  shows "ParseEvent_params e raw j = Inr (Some (e\<lparr>Params := Split (drop (nat j) raw) eventSpace\<rparr>))"
  using assms by (simp add: ParseEvent_params_def slice_from_ok IndexByte_absent Let_def)

lemma ParseEvent_params_marker:
  assumes raw: "raw = pre @ eventSpace # mid @ messagePrefix # trailing"
    and j: "j = int (length pre) + 1"
    and mid: "messagePrefix \<notin> set mid" "mid = [] \<or> last mid = eventSpace"
  shows "ParseEvent_params e raw j =
     Inr (Some ((if mid = [] then e else e\<lparr>Params := Split (butlast mid) eventSpace\<rparr>)
            \<lparr>Trailing := trailing, EmptyTrailing := (trailing = [] \<or> EmptyTrailing e)\<rparr>))"
proof -
  let ?rest = "mid @ messagePrefix # trailing"
  have d: "drop (nat j) raw = ?rest" using raw j by (simp add: nat_add_distrib)
  have r: "slice_from raw j = Inr ?rest"
    using raw j d by (simp add: slice_from_ok del: append_assoc)
  have i: "IndexByte ?rest messagePrefix = int (length mid)"
    using mid(1) by (rule IndexByte_first)
  have prev: "raw ! nat (j + int (length mid) - 1) = eventSpace"
  proof (cases "mid = []")
    case True
    with raw j show ?thesis by (simp add: nth_append)
  next
    case False
    with mid(2) have l: "last mid = eventSpace" by simp
    from False have "nat (j + int (length mid) - 1) = length pre + 1 + (length mid - 1)"
      using j by (cases mid) (simp_all add: nat_add_distrib)
    then have "raw ! nat (j + int (length mid) - 1) = (mid @ messagePrefix # trailing) ! (length mid - 1)"
      using raw by (simp add: nth_append)
    also have "\<dots> = mid ! (length mid - 1)" using False by (simp add: nth_append)
    also have "\<dots> = last mid" using False by (simp add: last_conv_nth)
    finally show ?thesis using l by simp
  qed
  have b: "byte_at raw (j + int (length mid) - 1) = Inr eventSpace"
    using raw j prev by (simp add: byte_at_def)
  have t: "slice_from raw (int (length mid) + j + 1) = Inr trailing"
    using raw j by (simp add: slice_from_def slice_def nat_add_distrib)
  have p: "mid \<noteq> [] \<Longrightarrow> slice raw j (int (length mid) + j - 1) = Inr (butlast mid)"
  proof -
    assume ne: "mid \<noteq> []"
    then have "nat (int (length mid) + j - 1) - nat j = length mid - 1"
      using j by (cases mid) (simp_all add: nat_add_distrib)
    moreover have "take (length mid - 1) ?rest = butlast mid"
      using ne by (simp add: butlast_conv_take)
    moreover from ne have "Suc 0 \<le> length mid" by (cases mid) simp_all
    ultimately show ?thesis using raw j d ne
      by (simp add: slice_def del: append_assoc)
  qed
  show ?thesis
  proof (cases "mid = []")
    case True
    then show ?thesis using b t i r
      by (simp add: ParseEvent_params_def Let_def)
  next
    case False
    then show ?thesis using b t i r p
      by (simp add: ParseEvent_params_def Let_def)
  qed
qed

lemma ParseEvent_params_embedded:
  assumes raw: "raw = pre @ eventSpace # mid @ messagePrefix # trailing"
    and j: "j = int (length pre) + 1"
    and mid: "messagePrefix \<notin> set mid" "mid \<noteq> []" "last mid \<noteq> eventSpace"
  shows "ParseEvent_params e raw j =
     Inr (Some (e\<lparr>Params := Split (mid @ messagePrefix # trailing) eventSpace\<rparr>))"
proof -
  let ?rest = "mid @ messagePrefix # trailing"
  have d: "drop (nat j) raw = ?rest" using raw j by (simp add: nat_add_distrib)
  have r: "slice_from raw j = Inr ?rest"
    using raw j d by (simp add: slice_from_ok del: append_assoc)
  have i: "IndexByte ?rest messagePrefix = int (length mid)"
    using mid(1) by (rule IndexByte_first)
  have "nat (j + int (length mid) - 1) = length pre + 1 + (length mid - 1)"
    using j mid(2) by (cases mid) (simp_all add: nat_add_distrib)
  then have "raw ! nat (j + int (length mid) - 1) = (mid @ messagePrefix # trailing) ! (length mid - 1)"
    using raw by (simp add: nth_append)
  also have "\<dots> = mid ! (length mid - 1)" using mid(2) by (simp add: nth_append)
  also have "\<dots> = last mid" using mid(2) by (simp add: last_conv_nth)
  finally have prev: "raw ! nat (j + int (length mid) - 1) \<noteq> eventSpace" using mid(3) by simp
  have b: "byte_at raw (j + int (length mid) - 1) = Inr (raw ! nat (j + int (length mid) - 1))"
    using raw j by (simp add: byte_at_def)
  show ?thesis using b i r prev
    by (simp add: ParseEvent_params_def Let_def)
qed

text \<open>
  The command runs from the index the code holds to the next space, or to the end of
  the line; a prefix section \<open>:source\<close> is parsed by \<open>ParseSource\<close> and moves that
  index past its space.
\<close>


lemma ParseEvent_command_last:
  assumes "raw = pre @ cmd" "i = int (length pre)" "eventSpace \<notin> set cmd"
  shows "ParseEvent_command up e raw i = Inr (Some (e\<lparr>Command := ToUpper up cmd\<rparr>))"
  using assms by (simp add: ParseEvent_command_def slice_from_ok IndexByte_absent Let_def)

lemma ParseEvent_command_more:
  assumes raw: "raw = pre @ cmd @ eventSpace # rest" and i: "i = int (length pre)"
    and cmd: "eventSpace \<notin> set cmd"
  shows "ParseEvent_command up e raw i =
         ParseEvent_params (e\<lparr>Command := ToUpper up cmd\<rparr>) raw (int (length pre) + int (length cmd) + 1)"
proof -
  have r: "slice_from raw (int (length pre)) = Inr (cmd @ eventSpace # rest)"
    using raw by (simp add: slice_from_ok)
  have j: "IndexByte (cmd @ eventSpace # rest) eventSpace = int (length cmd)"
    using cmd by (rule IndexByte_first)
  have c: "slice raw (int (length pre)) (int (length pre) + int (length cmd)) = Inr cmd"
    using raw by (simp add: slice_def nat_add_distrib)
  show ?thesis unfolding i
    by (simp add: ParseEvent_command_def r j c Let_def)
qed

lemma ParseEvent_prefix_with_source:
  assumes raw: "raw = messagePrefix # src @ eventSpace # rest"
    and src: "src \<noteq> []" "eventSpace \<notin> set src" and s: "ParseSource src = Inr s"
  shows "ParseEvent_prefix up e raw i =
         ParseEvent_command up (e\<lparr>Source := Some s\<rparr>) raw (2 + int (length src))"
proof -
  have ne: "eventSpace \<noteq> messagePrefix" by (simp add: char_defs)
  have b: "byte_at raw 0 = Inr messagePrefix" using raw by (simp add: byte_at_def)
  from src(2) ne have "eventSpace \<notin> set (messagePrefix # src)" by auto
  then have "IndexByte ((messagePrefix # src) @ eventSpace # rest) eventSpace = int (length (messagePrefix # src))"
    by (rule IndexByte_first)
  then have idx: "IndexByte raw eventSpace = 1 + int (length src)" using raw by simp
  from src(1) have ge: "\<not> 1 + int (length src) < 2" by (cases src) simp_all
  have sl: "slice raw 1 (1 + int (length src)) = Inr src"
    using raw by (simp add: slice_def nat_add_distrib)
  show ?thesis
    by (simp add: ParseEvent_prefix_def b idx ge sl s Let_def)
qed


section \<open>Serialization followed by parsing, without tags\<close>

lemma source_atom_set:
  "source_atom x \<Longrightarrow> eventSpace \<notin> set x \<and> prefixIdent \<notin> set x \<and> prefixHost \<notin> set x
     \<and> CHR 0x0D \<notin> set x \<and> CHR 0x0A \<notin> set x"
  by (auto simp: source_atom_def list_all_iff)

lemma ParseSource_Source_Bytes:
  assumes "valid_Source s"
  shows "ParseSource (Source_Bytes s) = Inr s"
proof -
  from assms have n: "Name s \<noteq> []" "prefixIdent \<notin> set (Name s)" "prefixHost \<notin> set (Name s)"
    and i: "prefixHost \<notin> set (Ident s)" and h: "prefixIdent \<notin> set (Host s)"
    using source_atom_set by (auto simp: valid_Source_def)
  show ?thesis
  proof (cases "Ident s = []")
    case noident: True
    show ?thesis
    proof (cases "Host s = []")
      case True
      with noident ParseSource_name_only [OF n(2) n(3)] show ?thesis
        by (simp add: Source_Bytes_def Source_writeTo_def)
    next
      case False
      with noident ParseSource_host_only [OF n h] show ?thesis
        by (simp add: Source_Bytes_def Source_writeTo_def)
    qed
  next
    case ident: False
    show ?thesis
    proof (cases "Host s = []")
      case True
      with ident ParseSource_ident_only [OF n i] show ?thesis
        by (simp add: Source_Bytes_def Source_writeTo_def)
    next
      case False
      with ident ParseSource_full [OF n i, of "Host s"] show ?thesis
        by (simp add: Source_Bytes_def Source_writeTo_def)
    qed
  qed
qed

lemma Source_Bytes_atoms:
  assumes "valid_Source s"
  shows "Source_Bytes s \<noteq> [] \<and> eventSpace \<notin> set (Source_Bytes s) \<and> crlf_free (Source_Bytes s)"
proof -
  have sp: "eventSpace \<noteq> prefixIdent" "eventSpace \<noteq> prefixHost" by (simp_all add: char_defs)
  from assms source_atom_set [of "Name s"] source_atom_set [of "Ident s"] source_atom_set [of "Host s"] sp
  show ?thesis
    by (auto simp: valid_Source_def Source_Bytes_def Source_writeTo_def crlf_free_def cutCRFunc_def
        list_all_iff char_defs)
qed

lemma Source_writeTo_Bytes: "Source_writeTo s b = b @ Source_Bytes s"
  by (simp add: Source_writeTo_def Source_Bytes_def)

lemma TrimFunc_crlf_free: "crlf_free s \<Longrightarrow> TrimFunc s cutCRFunc = s"
proof -
  assume c: "crlf_free s"
  have d: "crlf_free x \<Longrightarrow> dropWhile cutCRFunc x = x" for x
    by (cases x) (simp_all add: crlf_free_def)
  from c have "crlf_free (rev s)" by (simp add: crlf_free_def)
  with c d show ?thesis by (simp add: TrimFunc_def)
qed

lemma valid_Command_ToUpper: "valid_Command c \<Longrightarrow> ToUpper up c = c"
proof -
  assume v: "valid_Command c"
  have k: "\<forall>x\<in>set ''ABCDEFGHIJKLMNOPQRSTUVWXYZ0123456789''. (of_char x :: nat) < 0x80 \<and> ascii_upper x = x"
    by (simp add: ascii_upper_def)
  from v k have a: "list_all (\<lambda>c. (of_char c :: nat) < 0x80) c"
    unfolding valid_Command_def list_all_iff by blast
  from v k have "\<forall>x\<in>set c. ascii_upper x = x"
    unfolding valid_Command_def list_all_iff by blast
  then have "map ascii_upper c = c"
    by (simp add: map_idI)
  with a show ?thesis by (simp add: ToUpper_def)
qed

lemma valid_Command_chars:
  "valid_Command c \<Longrightarrow> eventSpace \<notin> set c \<and> crlf_free c \<and> prefixTag \<notin> set c \<and> messagePrefix \<notin> set c"
proof -
  assume v: "valid_Command c"
  have k: "\<forall>x\<in>set ''ABCDEFGHIJKLMNOPQRSTUVWXYZ0123456789''.
      x \<noteq> eventSpace \<and> \<not> cutCRFunc x \<and> x \<noteq> prefixTag \<and> x \<noteq> messagePrefix"
    by (simp add: char_defs cutCRFunc_def)
  from v k show ?thesis
    unfolding valid_Command_def list_all_iff crlf_free_def by blast
qed


lemma middle_param_set:
  "middle_param p \<Longrightarrow> eventSpace \<notin> set p \<and> messagePrefix \<notin> set p \<and> crlf_free p"
  by (auto simp: middle_param_def list_all_iff crlf_free_def cutCRFunc_def)

lemma valid_untagged_crlf_free:
  assumes "valid_untagged_Event e"
  shows "Event_crlf_free e"
proof -
  from assms have "list_all crlf_free (Params e)"
    using middle_param_set by (auto simp: valid_untagged_Event_def list_all_iff)
  moreover have "valid_Source s \<Longrightarrow> crlf_free (Name s) \<and> crlf_free (Ident s) \<and> crlf_free (Host s)" for s
    using source_atom_set [of "Name s"] source_atom_set [of "Ident s"] source_atom_set [of "Host s"]
    by (auto simp: valid_Source_def crlf_free_def cutCRFunc_def list_all_iff)
  ultimately show ?thesis using assms valid_Command_chars [of "Command e"]
    by (auto simp: valid_untagged_Event_def Event_crlf_free_def split: option.splits)
qed


text \<open>
  An event without tags, with a source (if any) of non-empty name and fields free of
  space, \<open>!\<close>, \<open>@\<close>, CR and LF, a command of upper-case letters and digits, parameters
  free of space, \<open>:\<close>, CR and LF, a trailing parameter free of CR and LF that is empty
  when \<open>EmptyTrailing\<close> is set, and a line of 2 to 510 octets, is serialized without loss:
  parsing the octets of \<open>Event.Bytes\<close> gives the event back (with \<open>Sensitive\<close> unset,
  which is not part of the line).
\<close>

lemma roundtrip_untagged:
  assumes v: "valid_untagged_Event e"
  shows "Event_Bytes e = Inr (Event_buffer e)
       \<and> ParseEvent up (Event_buffer e) = Inr (Some (e\<lparr>Sensitive := False\<rparr>))"
proof -
  define pre where
    "pre = (case Source e of None \<Rightarrow> [] | Some s \<Rightarrow> messagePrefix # Source_Bytes s @ [eventSpace])"
  define ptail where
    "ptail = (if Params e \<noteq> [] then eventSpace # Join (Params e) eventSpace else [])"
  define ttail where
    "ttail = (if Trailing e \<noteq> [] \<or> EmptyTrailing e then eventSpace # messagePrefix # Trailing e else [])"
  define e1 where "e1 = new_Event\<lparr>Source := Source e\<rparr>"
  define e2 where "e2 = e1\<lparr>Command := Command e\<rparr>"
  let ?buf = "Event_buffer e"
  let ?cmd = "Command e"
  from v have tags: "Tags e = None" and cmdv: "valid_Command ?cmd"
    and ps: "list_all middle_param (Params e)" and et: "EmptyTrailing e \<longrightarrow> Trailing e = []"
    and len2: "2 \<le> Event_Len [] e" and len510: "Event_Len [] e \<le> maxLength"
    by (simp_all add: valid_untagged_Event_def)
  have buf: "?buf = pre @ ?cmd @ ptail @ ttail"
    using tags by (simp add: Event_buffer_def pre_def ptail_def ttail_def Let_def
        Source_writeTo_Bytes split: option.splits)
  have "range_order e []" "tags_nil_or_fit e"
    using tags by (simp_all add: range_order_def tags_nil_or_fit_def)
  then have len: "Event_Len [] e = length ?buf" by (rule Event_Len_buffer)
  have free: "crlf_free ?buf"
    using v by (simp add: valid_untagged_crlf_free crlf_free_Event_buffer)
  have bytes: "Event_Bytes e = Inr ?buf"
    using len len510 free by (simp add: Event_Bytes_def Let_def stripCRLF_crlf_free)
  have sp_cmd: "eventSpace \<notin> set ?cmd" and tag_cmd: "prefixTag \<notin> set ?cmd"
    and pfx_cmd: "messagePrefix \<notin> set ?cmd"
    using valid_Command_chars [OF cmdv] by simp_all
  have up: "ToUpper up ?cmd = ?cmd" using cmdv by (rule valid_Command_ToUpper)
  have ne: "eventSpace \<noteq> messagePrefix" "eventSpace \<noteq> prefixTag" "messagePrefix \<noteq> prefixTag"
    by (simp_all add: char_defs)
  have tail_hd: "ptail @ ttail \<noteq> [] \<Longrightarrow> hd (ptail @ ttail) = eventSpace"
    by (auto simp: ptail_def ttail_def)
  \<comment> \<open>the tag and prefix sections\<close>
  have nonempty: "?buf \<noteq> []" using len len2 by auto
  have trim: "TrimFunc ?buf cutCRFunc = ?buf" using free by (rule TrimFunc_crlf_free)
  have stage1: "ParseEvent up ?buf = ParseEvent_command up e1 ?buf (int (length pre))"
  proof (cases "Source e")
    case None
    then have pre: "pre = []" by (simp add: pre_def)
    have hd: "hd ?buf \<noteq> prefixTag \<and> hd ?buf \<noteq> messagePrefix"
    proof (cases "?cmd = []")
      case True
      with buf pre nonempty tail_hd ne show ?thesis by auto
    next
      case False
      with buf pre tag_cmd pfx_cmd show ?thesis by (cases ?cmd) auto
    qed
    with nonempty have b: "byte_at ?buf 0 = Inr (hd ?buf)"
      by (cases ?buf) (simp_all add: byte_at_def)
    have "ParseEvent up ?buf = ParseEvent_prefix up new_Event ?buf 0"
      using hd len len2 b by (simp add: ParseEvent_def trim Let_def)
    also have "\<dots> = ParseEvent_command up new_Event ?buf 0"
      using nonempty hd by (simp add: ParseEvent_prefix_no_source)
    finally show ?thesis using None pre by (simp add: e1_def new_Event_def)
  next
    case (Some s)
    then have vs: "valid_Source s" using v by (simp add: valid_untagged_Event_def)
    from Some have pre: "pre = messagePrefix # Source_Bytes s @ [eventSpace]" by (simp add: pre_def)
    with buf have raw: "?buf = messagePrefix # Source_Bytes s @ eventSpace # (?cmd @ ptail @ ttail)"
      by simp
    then have b: "byte_at ?buf 0 = Inr messagePrefix" by (simp add: byte_at_def)
    have "ParseEvent up ?buf = ParseEvent_prefix up new_Event ?buf 0"
      using len len2 b ne by (simp add: ParseEvent_def trim Let_def)
    also have "\<dots> = ParseEvent_command up (new_Event\<lparr>Source := Some s\<rparr>) ?buf (2 + int (length (Source_Bytes s)))"
      using raw Source_Bytes_atoms [OF vs] ParseSource_Source_Bytes [OF vs]
      by (intro ParseEvent_prefix_with_source) simp_all
    finally show ?thesis using Some pre by (simp add: e1_def new_Event_def)
  qed
  \<comment> \<open>the command, the parameters and the trailing parameter\<close>
  have stage2: "ParseEvent_command up e1 ?buf (int (length pre)) = Inr (Some (e\<lparr>Sensitive := False\<rparr>))"
  proof (cases "ptail @ ttail = []")
    case True
    then have "Params e = []" "Trailing e = []" "\<not> EmptyTrailing e"
      by (auto simp: ptail_def ttail_def split: if_splits)
    moreover from True buf have "?buf = pre @ ?cmd" by simp
    from ParseEvent_command_last [OF this refl sp_cmd, of up e1]
    have "ParseEvent_command up e1 ?buf (int (length pre)) = Inr (Some e2)"
      by (simp add: up e2_def)
    ultimately show ?thesis using tags
      by (cases e) (simp add: e1_def e2_def new_Event_def)
  next
    case False
    with tail_hd obtain rest where rest: "ptail @ ttail = eventSpace # rest"
      by (cases "ptail @ ttail") auto
    with buf have "?buf = pre @ ?cmd @ eventSpace # rest" by simp
    from ParseEvent_command_more [OF this refl sp_cmd, of up e1]
    have c: "ParseEvent_command up e1 ?buf (int (length pre)) =
             ParseEvent_params e2 ?buf (int (length (pre @ ?cmd)) + 1)"
      by (simp add: up e2_def)
    have pcs: "\<forall>p\<in>set (Params e). eventSpace \<notin> set p \<and> messagePrefix \<notin> set p"
      using ps middle_param_set by (auto simp: list_all_iff)
    then have nocolon: "messagePrefix \<notin> set (Join (Params e) eventSpace)"
      using set_Join [of "Params e" eventSpace] ne by auto
    show ?thesis
    proof (cases "ttail = []")
      case True
      with False have pne: "Params e \<noteq> []" and pt: "ptail = eventSpace # Join (Params e) eventSpace"
        by (auto simp: ptail_def split: if_splits)
      from True have tr: "Trailing e = []" "\<not> EmptyTrailing e"
        by (auto simp: ttail_def split: if_splits)
      from buf True pt have d: "drop (length (pre @ ?cmd) + 1) ?buf = Join (Params e) eventSpace"
        by simp
      have "ParseEvent_params e2 ?buf (int (length (pre @ ?cmd)) + 1)
            = Inr (Some (e2\<lparr>Params := Split (drop (nat (int (length (pre @ ?cmd)) + 1)) ?buf) eventSpace\<rparr>))"
      proof (rule ParseEvent_params_no_colon)
        show "0 < int (length (pre @ ?cmd)) + 1" by simp
        show "int (length (pre @ ?cmd)) + 1 \<le> int (length ?buf)" using buf pt by simp
        show "messagePrefix \<notin> set (drop (nat (int (length (pre @ ?cmd)) + 1)) ?buf)"
          using d nocolon by (simp add: nat_add_distrib)
      qed
      also have "drop (nat (int (length (pre @ ?cmd)) + 1)) ?buf = Join (Params e) eventSpace"
        using d by (simp add: nat_add_distrib)
      also have "Split (Join (Params e) eventSpace) eventSpace = Params e"
        using pne pcs by (simp add: Split_Join)
      finally show ?thesis using c tr tags
        by (cases e) (simp add: e1_def e2_def new_Event_def)
    next
      case tne: False
      then have tt: "ttail = eventSpace # messagePrefix # Trailing e"
        and trailing: "Trailing e \<noteq> [] \<or> EmptyTrailing e"
        by (auto simp: ttail_def split: if_splits)
      from et trailing have empty_iff: "EmptyTrailing e \<longleftrightarrow> Trailing e = []" by auto
      show ?thesis
      proof (cases "Params e = []")
        case True
        then have "ptail = []" by (simp add: ptail_def)
        with buf tt have "?buf = (pre @ ?cmd) @ eventSpace # [] @ messagePrefix # Trailing e"
          by simp
        from ParseEvent_params_marker [OF this refl, of e2]
        have "ParseEvent_params e2 ?buf (int (length (pre @ ?cmd)) + 1)
               = Inr (Some (e2\<lparr>Trailing := Trailing e,
                               EmptyTrailing := (Trailing e = [] \<or> EmptyTrailing e2)\<rparr>))"
          by simp
        then show ?thesis using c True tags empty_iff
          by (cases e) (auto simp: e1_def e2_def new_Event_def)
      next
        case pne: False
        let ?mid = "Join (Params e) eventSpace @ [eventSpace]"
        from pne have "ptail = eventSpace # Join (Params e) eventSpace" by (simp add: ptail_def)
        with buf tt have raw: "?buf = (pre @ ?cmd) @ eventSpace # ?mid @ messagePrefix # Trailing e"
          by simp
        have m1: "messagePrefix \<notin> set ?mid" using nocolon ne by auto
        have m2: "?mid = [] \<or> last ?mid = eventSpace" by simp
        from ParseEvent_params_marker [OF raw refl m1 m2, of e2]
        have "ParseEvent_params e2 ?buf (int (length (pre @ ?cmd)) + 1)
               = Inr (Some (e2\<lparr>Params := Split (Join (Params e) eventSpace) eventSpace,
                      Trailing := Trailing e, EmptyTrailing := (Trailing e = [] \<or> EmptyTrailing e2)\<rparr>))"
          by simp
        moreover have "Split (Join (Params e) eventSpace) eventSpace = Params e"
          using pne pcs by (simp add: Split_Join)
        ultimately show ?thesis using c tags empty_iff
          by (cases e) (auto simp: e1_def e2_def new_Event_def)
      qed
    qed
  qed
  from bytes stage1 stage2 show ?thesis by simp
qed

section \<open>Parsing of events\<close>

text \<open>
  The two lines of the specification's example for the empty trailing parameter:
  \<open>CMD a :\<close> is parsed with \<open>EmptyTrailing\<close> set and is serialized with the marker
  again, \<open>CMD a\<close> is parsed without it and is serialized without the marker.
\<close>

lemma EmptyTrailing_examples:
  "ParseEvent unicodeUpper ''CMD a :''
     = Inr (Some (new_Event\<lparr>Command := ''CMD'', Params := [''a''], EmptyTrailing := True\<rparr>))
   \<and> Event_Bytes (new_Event\<lparr>Command := ''CMD'', Params := [''a''], EmptyTrailing := True\<rparr>)
     = Inr ''CMD a :''
   \<and> ParseEvent unicodeUpper ''CMD a''
     = Inr (Some (new_Event\<lparr>Command := ''CMD'', Params := [''a'']\<rparr>))
   \<and> Event_Bytes (new_Event\<lparr>Command := ''CMD'', Params := [''a'']\<rparr>) = Inr ''CMD a''"
  by (simp add: ParseEvent_defs Event_Bytes_defs go_string_defs char_defs)

text \<open>
  C1. An event with the one tag \<open>a=b\<close> and the command \<open>PING\<close> is serialized as
  \<open>a=b; PING\<close>: \<open>Tags.Bytes\<close> writes no \<open>@\<close> before the tags and a \<open>;\<close> after the last
  one. Parsed again, that line has no tags, the command \<open>A=B;\<close> and the parameter
  \<open>PING\<close>; so neither the tag map nor the command and the parameters come back.
\<close>

theorem roundtrip_with_tags:
  "Event_Bytes (new_Event\<lparr>Tags := Some [(''a'', ''b'')], Command := ''PING''\<rparr>)
     = Inr ''a=b; PING''
   \<and> ParseEvent unicodeUpper ''a=b; PING''
     = Inr (Some (new_Event\<lparr>Command := ''A=B;'', Params := [''PING'']\<rparr>))
   \<and> Event_Bytes (new_Event\<lparr>Command := ''A=B;'', Params := [''PING'']\<rparr>) = Inr ''A=B; PING''
   \<and> ParseTags ''a=b;'' = Inr [(''a'', ''b''), ([], [])]"
  by (simp add: ParseEvent_defs Event_Bytes_defs go_string_defs char_defs)

text \<open>
  C2. \<open>ParseEvent\<close> panics on the line \<open>@a \<close>: after the tag section nothing is left of
  the line, and the first octet of the rest is read. It panics on \<open>@abcdef X\<close> too, where
  the index of the space that ended the tags is used to slice the shorter rest.
\<close>

theorem ParseEvent_panics:
  "ParseEvent unicodeUpper ''@a '' = Inl IndexOutOfRange
   \<and> ParseEvent unicodeUpper ''@abcdef X'' = Inl SliceOutOfRange"
  by (simp add: ParseEvent_defs go_string_defs char_defs)

text \<open>
  C5. In \<open>CMD a:b :x\<close> the second \<open>:\<close> follows a space, and yet no trailing parameter is
  found: only the first \<open>:\<close> of the text after the command is examined, and it lies
  inside \<open>a:b\<close>. The text is split on spaces, so the marker becomes part of a parameter.
\<close>

theorem trailing_marker_after_embedded_colon:
  "ParseEvent unicodeUpper ''CMD a:b :x''
     = Inr (Some (new_Event\<lparr>Command := ''CMD'', Params := [''a:b'', '':x'']\<rparr>))"
  by (simp add: ParseEvent_defs go_string_defs char_defs)

text \<open>
  C6. Parsing \<open>@a PING :x\<close> gives the command \<open>NG\<close>: the index of the space that ended
  the tag section is kept as the start of the command in the rest of the line.
\<close>

theorem command_after_tags:
  "ParseEvent unicodeUpper ''@a PING :x''
     = Inr (Some (new_Event\<lparr>Tags := Some [(''a'', [])], Command := ''NG'', Trailing := ''x''\<rparr>))"
  by (simp add: ParseEvent_defs go_string_defs char_defs)

section \<open>The WHO handler\<close>

lemma handleWHO_plain_short:
  "Command e \<noteq> RPL_WHOSPCRPL \<Longrightarrow> length (Params e) < 6 \<Longrightarrow>
   handleWHO RPL_WHOSPCRPL createUserIfNotExists assign st e = Inl IndexOutOfRange"
  by (simp add: handleWHO_def param_at_def bindE_def)

lemma handleWHO_WHOX_malformed:
  "Command e = RPL_WHOSPCRPL \<Longrightarrow> length (Params e) \<noteq> 7 \<Longrightarrow>
   handleWHO RPL_WHOSPCRPL createUserIfNotExists assign st e = Inr st"
  by (simp add: handleWHO_def bindE_def)

text \<open>
  C3. A WHO reply (numeric 352, which is not the WHOX numeric 354) with the two
  parameters \<open>me\<close> and \<open>#chan\<close> makes \<open>handleWHO\<close> panic: the branch for the plain reply
  reads \<open>Params[1]\<close>, \<open>[2]\<close>, \<open>[3]\<close> and \<open>[5]\<close> without a look at the length.
\<close>

theorem handleWHO_short_reply:
  "handleWHO ''354'' createUserIfNotExists assign st
     (new_Event\<lparr>Command := ''352'', Params := [''me'', ''#chan'']\<rparr>) = Inl IndexOutOfRange"
  by (simp add: handleWHO_def new_Event_def param_at_def bindE_def)

section \<open>Copies of events\<close>

text \<open>
  Whatever the heap, the struct that \<open>Copy\<close> returns holds the source pointer and the
  slice header of the original.
\<close>

lemma Event_Copy_aliases:
  assumes "Event_Copy h e = Inr (h', c)" "events h e = Some ev" "e \<noteq> fresh h"
  shows "\<exists>cev. events h' c = Some cev \<and> c \<noteq> e \<and> events h' e = Some ev
          \<and> Source_ptr cev = Source_ptr ev \<and> Params_hdr cev = Params_hdr ev"
  using assms
  by (auto simp: Event_Copy_def bindH_def load_event_def load_source_def store_source_def
      copy_slice_def Let_def split: option.splits if_splits sum.splits)

text \<open>
  C4. In \<open>heap_one_event\<close> the event at address 0 has the source \<open>nick!user@host\<close>, the tag
  \<open>a=b\<close> and the parameter \<open>#chan\<close>. After \<open>Copy\<close>, an assignment to the \<open>Source.Name\<close> of
  the copy is read back through the original, and so is an assignment to \<open>Params[0]\<close> of
  the copy: the source and the backing array are shared. Only the tag map is
  duplicated.
\<close>

theorem Event_Copy_shares_Source_and_Params:
  "get_Source_Name heap_one_event 0 = Inr ''nick''
   \<and> bindH (Event_Copy heap_one_event 0) (\<lambda>(h, c).
        bindH (set_Source_Name h c ''evil'') (\<lambda>h'. get_Source_Name h' 0)) = Inr ''evil''
   \<and> get_Params heap_one_event 0 = Inr [''#chan'']
   \<and> bindH (Event_Copy heap_one_event 0) (\<lambda>(h, c).
        bindH (set_Param h c 0 ''evil'') (\<lambda>h'. get_Params h' 0)) = Inr [''evil'']
   \<and> bindH (Event_Copy heap_one_event 0) (\<lambda>(h, c).
        bindH (set_Tag h c ''a'' ''evil'') (\<lambda>h'. get_Tag h' 0 ''a'')) = Inr (Some ''b'')"
  by (simp add: heap_one_event_def heap_defs)

end
